theory Spec2Isabelle
  imports Complex_Main "HOL-Library.AList" "HOL-Library.Multiset"
begin

section \<open>Data model of the stock update service\<close>

text \<open>
  The embedding follows \<^verbatim>\<open>src/app/services/stockUpdate.js\<close>. JavaScript objects
  become records, promises become values of a result type, and the modules the file
  requires but the repository does not ship (\<^verbatim>\<open>config\<close>, \<^verbatim>\<open>utils\<close>,
  \<^verbatim>\<open>request\<close>, \<^verbatim>\<open>cheerio\<close>, \<^verbatim>\<open>alphaVantage\<close>, \<^verbatim>\<open>discovery\<close>,
  \<^verbatim>\<open>cloudantDb\<close>) become function parameters.
\<close>

text \<open>
  The value a promise is rejected with, or that is thrown. \<^verbatim>\<open>Undefined\<close> is the reason
  of a bare \<^verbatim>\<open>reject()\<close>; a string and an \<^verbatim>\<open>Error\<close> object (with its message) are
  the reasons a client library rejects with; a \<^verbatim>\<open>TypeError\<close> (with its message) is
  what the language throws when a property of \<^verbatim>\<open>undefined\<close> is read or when a value
  that is no function is called.
\<close>

datatype reason = Undefined | Str string | ErrorObj string | TypeError string

datatype 'a promise = Resolved 'a | Rejected reason

text \<open>
  An article as \<^verbatim>\<open>parseArticle\<close> builds it. \<^verbatim>\<open>date\<close> is \<^verbatim>\<open>None\<close> when the
  field is \<^verbatim>\<open>undefined\<close> (the source tests for it), \<^verbatim>\<open>imageURL\<close> is
  \<^verbatim>\<open>None\<close> until an image is attached.
\<close>

record article =
  url :: string
  sentiment :: string
  date :: "string option"
  title :: string
  source :: string
  imageURL :: "string option"

text \<open>The object \<^verbatim>\<open>{url: url, imageURL: imageURL}\<close> an image lookup resolves with.\<close>

record imgResult =
  res_url :: string
  res_imageURL :: string

text \<open>A price pair \<^verbatim>\<open>{date: '2018-01-25', price: 35.9}\<close>.\<close>

record pricepair =
  pair_date :: string
  pair_price :: real

text \<open>
  A stock document. An absent \<^verbatim>\<open>history\<close>, \<^verbatim>\<open>price_history\<close> or \<^verbatim>\<open>ticker\<close>
  is the empty list or string: every read in the source goes through
  \<^verbatim>\<open>stockDatum.history || []\<close>, \<^verbatim>\<open>stockDatum.price_history || {}\<close> and
  \<^verbatim>\<open>!stockDatum.ticker\<close>, which treat both alike. The price history is an object used
  as a map; it is kept as an association list in insertion order.
\<close>

record stock =
  company :: string
  ticker :: string
  history :: "article list"
  price_history :: "(string \<times> real) list"

text \<open>
  A result of the discovery service, with the fields \<^verbatim>\<open>parseArticle\<close> reads:
  \<^verbatim>\<open>url\<close>, \<^verbatim>\<open>enriched_text.sentiment.document.label\<close>, \<^verbatim>\<open>crawl_date\<close>,
  \<^verbatim>\<open>title\<close> and \<^verbatim>\<open>forum_title\<close>. \<^verbatim>\<open>label\<close> is \<^verbatim>\<open>None\<close> when one of the
  objects \<^verbatim>\<open>enriched_text\<close>, \<^verbatim>\<open>sentiment\<close> and \<^verbatim>\<open>document\<close> on the way to the
  label is missing, so that reading the label throws.
\<close>

record discoveryResult =
  result_url :: string
  label :: "string option"
  crawl_date :: "string option"
  result_title :: string
  forum_title :: string

section \<open>Sorting and searching articles\<close>

text \<open>
  \<^verbatim>\<open>new Date(b.date) - new Date(a.date)\<close>: the difference of the two time values, or
  NaN (\<^verbatim>\<open>None\<close>) when one of the dates is invalid. \<^verbatim>\<open>Date_parse\<close> stands for
  the built-in parser; \<^verbatim>\<open>new Date(undefined)\<close> is invalid.
\<close>

definition articleTime :: "(string \<Rightarrow> int option) \<Rightarrow> article \<Rightarrow> int option" where
  "articleTime Date_parse a = (case date a of None \<Rightarrow> None | Some s \<Rightarrow> Date_parse s)"

definition comparefn :: "(string \<Rightarrow> int option) \<Rightarrow> article \<Rightarrow> article \<Rightarrow> int option" where
  "comparefn Date_parse a b =
     (case (articleTime Date_parse b, articleTime Date_parse a) of
        (Some tb, Some ta) \<Rightarrow> Some (tb - ta)
      | _ \<Rightarrow> None)"

text \<open>
  \<^verbatim>\<open>Array.prototype.sort\<close> is the sort of the runtime, which reads a NaN of the
  comparison function as 0. It finds the run at the head of the array (reversing it when
  it is strictly descending) and then puts each further element into the sorted prefix,
  at the place a binary search finds. This is the whole sort for an array of fewer than 64
  elements. A longer array is cut into stretches of 32 to 64 elements that are each sorted
  in this way and then merged; with a consistent comparison function, that is when every
  date is valid, the result is the same list, since a stable sort has one result only.
  For longer arrays with an invalid date the merging is not modelled.
\<close>

definition callCompare :: "(string \<Rightarrow> int option) \<Rightarrow> article \<Rightarrow> article \<Rightarrow> int" where
  "callCompare Date_parse x y = (case comparefn Date_parse x y of None \<Rightarrow> 0 | Some v \<Rightarrow> v)"

text \<open>
  The number of elements after \<^verbatim>\<open>previousElement\<close> that continue the run: a descending
  run ends at the first element not strictly before its predecessor, another run at the
  first element strictly before its predecessor.
\<close>

fun runLength :: "(string \<Rightarrow> int option) \<Rightarrow> bool \<Rightarrow> article \<Rightarrow> article list \<Rightarrow> nat" where
  "runLength Date_parse isDescending previousElement [] = 0"
| "runLength Date_parse isDescending previousElement (currentElement # rest) =
     (let order = callCompare Date_parse currentElement previousElement in
      if (if isDescending then 0 \<le> order else order < 0) then 0
      else Suc (runLength Date_parse isDescending currentElement rest))"

definition countAndMakeRun ::
  "(string \<Rightarrow> int option) \<Rightarrow> article list \<Rightarrow> article list \<times> nat"
where
  "countAndMakeRun Date_parse workArray =
     (case workArray of
        elementHigh # elementLow # rest \<Rightarrow>
          (let isDescending = (callCompare Date_parse elementLow elementHigh < 0);
               n = 2 + runLength Date_parse isDescending elementLow rest
           in (if isDescending then rev (take n workArray) @ drop n workArray else workArray, n))
      | _ \<Rightarrow> (workArray, length workArray))"

function binarySearch ::
  "(string \<Rightarrow> int option) \<Rightarrow> article \<Rightarrow> article list \<Rightarrow> nat \<Rightarrow> nat \<Rightarrow> nat"
where
  "binarySearch Date_parse pivot workArray left right =
     (if left < right then
        (let mid = left + (right - left) div 2 in
         if callCompare Date_parse pivot (workArray ! mid) < 0
         then binarySearch Date_parse pivot workArray left mid
         else binarySearch Date_parse pivot workArray (mid + 1) right)
      else left)"
  by pat_completeness auto
termination
  by (relation "measure (\<lambda>(P, pivot, w, left, right). right - left)") auto

declare binarySearch.simps [simp del]

text \<open>
  One step of the binary insertion: \<^verbatim>\<open>prefix\<close> is the part of the array before the
  pivot, which is moved to the place the search finds.
\<close>

definition binaryInsert :: "(string \<Rightarrow> int option) \<Rightarrow> article list \<Rightarrow> article \<Rightarrow> article list" where
  "binaryInsert Date_parse prefix pivot =
     (let left = binarySearch Date_parse pivot prefix 0 (length prefix)
      in take left prefix @ pivot # drop left prefix)"

definition sortArticles :: "(string \<Rightarrow> int option) \<Rightarrow> article list \<Rightarrow> article list" where
  "sortArticles Date_parse articles =
     (case countAndMakeRun Date_parse articles of
        (workArray, n) \<Rightarrow> foldl (binaryInsert Date_parse) (take n workArray) (drop n workArray))"

fun articleContains :: "article \<Rightarrow> article list \<Rightarrow> bool" where
  "articleContains a [] = False"
| "articleContains a (x # xs) = (if url a = url x then True else articleContains a xs)"

text \<open>
  The filter of \<^verbatim>\<open>updateStocksData\<close> that keeps the incoming articles not yet in the
  existing history (the variable \<^verbatim>\<open>newArticles\<close>).
\<close>

definition newArticles :: "article list \<Rightarrow> article list \<Rightarrow> article list" where
  "newArticles existingArticles articles =
     filter (\<lambda>a. \<not> articleContains a existingArticles) articles"

section \<open>Price alignment\<close>

text \<open>
  The comparison \<^verbatim>\<open>x > y\<close> of two \<^verbatim>\<open>Date\<close> objects compares their time values and
  is false when one of them is invalid.
\<close>

fun dateGT :: "int option \<Rightarrow> int option \<Rightarrow> bool" where
  "dateGT (Some x) (Some y) = (y < x)"
| "dateGT _ _ = False"

text \<open>
  The loop of \<^verbatim>\<open>getPairForDate\<close> over the rest of the list. \<^verbatim>\<open>previous\<close> is
  \<^verbatim>\<open>priceList[i - 1]\<close>, \<^verbatim>\<open>None\<close> at \<^verbatim>\<open>i = 0\<close>. When the list is exhausted the
  function-scoped \<^verbatim>\<open>thisPair\<close> still holds the last element read, which is
  \<^verbatim>\<open>priceList[numPairs - 1]\<close>, and \<^verbatim>\<open>numPairs > 0\<close> holds exactly when there is one.
\<close>

fun scanPairs ::
  "(string \<Rightarrow> int option) \<Rightarrow> string \<Rightarrow> pricepair option \<Rightarrow> pricepair list \<Rightarrow> pricepair option"
where
  "scanPairs avDateStringToDate d previous [] =
     (case previous of
        None \<Rightarrow> None
      | Some thisPair \<Rightarrow>
          if dateGT (avDateStringToDate d) (avDateStringToDate (pair_date thisPair))
          then Some thisPair else None)"
| "scanPairs avDateStringToDate d previous (thisPair # rest) =
     (if pair_date thisPair = d then Some thisPair
      else if dateGT (avDateStringToDate (pair_date thisPair)) (avDateStringToDate d)
      then Some \<lparr>pair_date = d,
                  pair_price = (case previous of None \<Rightarrow> pair_price thisPair
                                | Some p \<Rightarrow> pair_price p)\<rparr>
      else scanPairs avDateStringToDate d (Some thisPair) rest)"

text \<open>
  \<^verbatim>\<open>getPairForDate(date, priceList)\<close>. An argument is \<^verbatim>\<open>None\<close> when it is
  \<^verbatim>\<open>undefined\<close>; \<^verbatim>\<open>!date\<close> also holds of the empty string.
\<close>

definition getPairForDate ::
  "(string \<Rightarrow> int option) \<Rightarrow> string option \<Rightarrow> pricepair list option \<Rightarrow> pricepair option"
where
  "getPairForDate avDateStringToDate date' priceList =
     (case (date', priceList) of
        (Some d, Some ps) \<Rightarrow>
          if d = [] then None else scanPairs avDateStringToDate d None ps
      | _ \<Rightarrow> None)"

text \<open>
  A list of pairs is ascending by date when no pair is strictly later than a pair that
  comes after it.
\<close>

definition ascending :: "(string \<Rightarrow> int option) \<Rightarrow> pricepair list \<Rightarrow> bool" where
  "ascending avDateStringToDate ps =
     sorted_wrt (\<lambda>p q. \<not> dateGT (avDateStringToDate (pair_date p))
                                (avDateStringToDate (pair_date q))) ps"

text \<open>
  Modelled from the spec: \<^verbatim>\<open>utils.avDateStringToDate\<close> is not part of the sources. The
  specification says it parses a date string in the market-data format
  (\<^verbatim>\<open>YYYY-MM-DD\<close>); the model returns a day count that grows with the date, and nothing
  for a string of another shape.
\<close>

definition digitVal :: "char \<Rightarrow> nat option" where
  "digitVal c =
     (let n = (of_char c :: nat) in if 48 \<le> n \<and> n \<le> 57 then Some (n - 48) else None)"

fun digitsVal :: "nat \<Rightarrow> string \<Rightarrow> nat option" where
  "digitsVal acc [] = Some acc"
| "digitsVal acc (c # cs) =
     (case digitVal c of None \<Rightarrow> None | Some v \<Rightarrow> digitsVal (10 * acc + v) cs)"

definition avDateStringToDate_spec :: "string \<Rightarrow> int option" where
  "avDateStringToDate_spec s =
     (if length s = 10 \<and> s ! 4 = CHR ''-'' \<and> s ! 7 = CHR ''-'' then
        (case (digitsVal 0 (take 4 s), digitsVal 0 (take 2 (drop 5 s)), digitsVal 0 (drop 8 s)) of
           (Some y, Some m, Some dd) \<Rightarrow> Some (int ((y * 12 + m) * 31 + dd))
         | _ \<Rightarrow> None)
      else None)"

text \<open>The price list of the specification's examples.\<close>

definition examplePrices :: "pricepair list" where
  "examplePrices =
     [\<lparr>pair_date = ''2018-01-20'', pair_price = 10\<rparr>,
      \<lparr>pair_date = ''2018-01-25'', pair_price = 12\<rparr>,
      \<lparr>pair_date = ''2018-01-30'', pair_price = 15\<rparr>]"

section \<open>Image resolver\<close>

text \<open>
  What \<^verbatim>\<open>request(url, callback)\<close> hands to its callback: an error, or a page. Of the
  page only the two attributes matter that the source reads from it through
  \<^verbatim>\<open>cheerio\<close>: the \<^verbatim>\<open>src\<close> of the first image under the document root and the
  \<^verbatim>\<open>src\<close> of the first image under \<^verbatim>\<open>body\<close> (\<^verbatim>\<open>None\<close> for \<^verbatim>\<open>undefined\<close>).
\<close>

datatype fetched = TransportError | Html "string option" "string option"

text \<open>Truthiness of a value that is a string or \<^verbatim>\<open>undefined\<close>.\<close>

definition truthy :: "string option \<Rightarrow> bool" where
  "truthy v = (case v of None \<Rightarrow> False | Some s \<Rightarrow> s \<noteq> [])"

text \<open>\<^verbatim>\<open>imgSrc.startsWith('/') ? imgSrc.slice(1) : imgSrc\<close>\<close>

definition stripSlash :: "string \<Rightarrow> string" where
  "stripSlash imgSrc = (case imgSrc of [] \<Rightarrow> [] | c # cs \<Rightarrow> if c = CHR ''/'' then cs else imgSrc)"

text \<open>
  \<^verbatim>\<open>getImageForArticle\<close>. The helpers \<^verbatim>\<open>utils.extractHTTPURL\<close> and
  \<^verbatim>\<open>utils.extractDomain\<close> are not part of the sources and are parameters, as is
  \<^verbatim>\<open>request\<close>. The promise resolves with \<^verbatim>\<open>None\<close> for \<^verbatim>\<open>res()\<close> and is
  rejected with \<^verbatim>\<open>Undefined\<close> for \<^verbatim>\<open>rej()\<close>.
\<close>

definition getImageForArticle ::
  "(string \<Rightarrow> string option) \<Rightarrow> (string \<Rightarrow> string) \<Rightarrow> (string \<Rightarrow> fetched) \<Rightarrow> article
     \<Rightarrow> imgResult option promise"
where
  "getImageForArticle extractHTTPURL extractDomain request a =
     (case request (url a) of
        TransportError \<Rightarrow> Rejected Undefined
      | Html rootSrc bodySrc \<Rightarrow>
          (case (if truthy rootSrc then rootSrc else bodySrc) of
             None \<Rightarrow> Resolved None
           | Some imgSrc \<Rightarrow>
               if imgSrc = [] then Resolved None
               else Resolved (Some \<lparr>res_url = url a,
                      res_imageURL =
                        (let httpURL = extractHTTPURL imgSrc in
                         if truthy httpURL then (case httpURL of Some h \<Rightarrow> h | None \<Rightarrow> [])
                         else extractDomain (url a) @ ''/'' @ stripSlash imgSrc)\<rparr>)))"

text \<open>
  \<^verbatim>\<open>getImages\<close>. Every promise gets a \<^verbatim>\<open>catch\<close> that turns a rejection into its
  reason, \<^verbatim>\<open>Promise.all\<close> keeps the order of the articles, and a result is collected
  when \<^verbatim>\<open>tempRes && tempRes.url\<close> holds. A rejection reason has no \<^verbatim>\<open>url\<close>.
\<close>

definition getImages ::
  "(string \<Rightarrow> string option) \<Rightarrow> (string \<Rightarrow> string) \<Rightarrow> (string \<Rightarrow> fetched) \<Rightarrow> article list
     \<Rightarrow> imgResult list promise"
where
  "getImages extractHTTPURL extractDomain request articles =
     Resolved (List.map_filter
       (\<lambda>a. case getImageForArticle extractHTTPURL extractDomain request a of
              Resolved (Some tempRes) \<Rightarrow> if res_url tempRes \<noteq> [] then Some tempRes else None
            | Resolved None \<Rightarrow> None
            | Rejected e \<Rightarrow> None) articles)"

text \<open>
  Modelled from the spec: \<^verbatim>\<open>utils.extractHTTPURL\<close> and \<^verbatim>\<open>utils.extractDomain\<close> are
  not part of the sources. The specification says that an absolute URL is used verbatim
  and that a relative one is resolved against the scheme and host of the article URL.
\<close>

definition extractHTTPURL_spec :: "string \<Rightarrow> string option" where
  "extractHTTPURL_spec s =
     (if take 7 s = ''http://'' \<or> take 8 s = ''https://'' then Some s else None)"

fun takeHost :: "string \<Rightarrow> string" where
  "takeHost [] = []"
| "takeHost (c # cs) = (if c = CHR ''/'' then [] else c # takeHost cs)"

fun extractDomain_spec :: "string \<Rightarrow> string" where
  "extractDomain_spec (a # b # c # rest) =
     (if [a, b, c] = ''://'' then ''://'' @ takeHost rest
      else a # extractDomain_spec (b # c # rest))"
| "extractDomain_spec s = s"

section \<open>Merging articles into a stock document\<close>

text \<open>
  The two loops at the head of \<^verbatim>\<open>insertNewArticles\<close>: for each image result, the
  first new article with the same URL gets the image URL (\<^verbatim>\<open>break\<close>).
\<close>

fun attachImage :: "imgResult \<Rightarrow> article list \<Rightarrow> article list" where
  "attachImage imgRes [] = []"
| "attachImage imgRes (newArtic # rest) =
     (if url newArtic = res_url imgRes
      then newArtic\<lparr>imageURL := Some (res_imageURL imgRes)\<rparr> # rest
      else newArtic # attachImage imgRes rest)"

definition attachImages :: "imgResult list \<Rightarrow> article list \<Rightarrow> article list" where
  "attachImages imgResults newArts = foldl (\<lambda>arts imgRes. attachImage imgRes arts) newArts imgResults"

text \<open>
  \<^verbatim>\<open>getLatestStockPrices\<close>: rejected without a reason when the ticker is missing, with
  the client's reason when the fetch fails; otherwise the fetched prices are written over
  the stored ones, date by date.
\<close>

definition getLatestStockPrices ::
  "(string \<Rightarrow> (string \<times> real) list promise) \<Rightarrow> stock \<Rightarrow> stock promise"
where
  "getLatestStockPrices getPriceHistoryForTicker stockDatum =
     (if ticker stockDatum = [] then Rejected Undefined
      else case getPriceHistoryForTicker (ticker stockDatum) of
             Rejected error \<Rightarrow> Rejected error
           | Resolved updatedHistory \<Rightarrow>
               Resolved (stockDatum\<lparr>price_history :=
                 foldl (\<lambda>newHistory (d, v). AList.update d v newHistory)
                   (price_history stockDatum) updatedHistory\<rparr>))"

text \<open>\<^verbatim>\<open>Array.from(new Set(neededDates))\<close>: the first occurrence of each value, in order.\<close>

fun dedup :: "'a list \<Rightarrow> 'a list \<Rightarrow> 'a list" where
  "dedup seen [] = []"
| "dedup seen (x # xs) = (if x \<in> set seen then dedup seen xs else x # dedup (x # seen) xs)"

section \<open>Collaborators\<close>

text \<open>
  The configuration, the helpers of \<^verbatim>\<open>utils\<close> and the external services, none of which
  is part of the sources. A service is the function from its argument to the way its
  promise settles. \<^verbatim>\<open>Date_parse\<close> is the date parser built into the language.
\<close>

record env =
  configured :: bool
  MAX_ARTICLES_PER_COMPANY :: nat
  companies :: "(string \<times> string) list"
  extractHTTPURL :: "string \<Rightarrow> string option"
  extractDomain :: "string \<Rightarrow> string"
  avDateStringToDate :: "string \<Rightarrow> int option"
  convertArticleDateToAVDate :: "string \<Rightarrow> string option"
  convertPriceMapToList :: "(string \<times> real) list \<Rightarrow> pricepair list"
  Date_parse :: "string \<Rightarrow> int option"
  request :: "string \<Rightarrow> fetched"
  getPriceHistoryForTicker :: "string \<Rightarrow> (string \<times> real) list promise"
  query :: "string \<Rightarrow> discoveryResult list promise"

text \<open>
  \<^verbatim>\<open>insertNewArticles\<close>. The state that is passed along is the list of documents handed
  to \<^verbatim>\<open>stock_db.insertOrUpdate\<close>, in order; whether the store accepts a document is only
  logged. The result is the document as it is after the call.
\<close>

definition insertNewArticles :: "env \<Rightarrow> stock \<Rightarrow> article list \<Rightarrow> stock list \<Rightarrow> stock \<times> stock list" where
  "insertNewArticles E stockDatum newArts store =
     (case getImages (extractHTTPURL E) (extractDomain E) (request E) newArts of
        Rejected e \<Rightarrow> (stockDatum, store)
      | Resolved imgResults \<Rightarrow>
          (let existingArticles = history stockDatum;
               updatedArticles =
                 sortArticles (Date_parse E) (existingArticles @ attachImages imgResults newArts);
               stockDatum' = stockDatum\<lparr>history :=
                 (if length updatedArticles > MAX_ARTICLES_PER_COMPANY E
                  then take (MAX_ARTICLES_PER_COMPANY E) updatedArticles
                  else updatedArticles)\<rparr>
           in (stockDatum', store @ [stockDatum'])))"

section \<open>Updating the stock documents\<close>

text \<open>The article data of one company, \<^verbatim>\<open>{company: company, articles: articles}\<close>.\<close>

record articleDatum =
  datum_company :: string
  datum_articles :: "article list"

fun findTickerForCompanyWithName :: "(string \<times> string) list \<Rightarrow> string \<Rightarrow> string option" where
  "findTickerForCompanyWithName [] name = None"
| "findTickerForCompanyWithName ((cname, cticker) # rest) name =
     (if name = cname then Some cticker else findTickerForCompanyWithName rest name)"

text \<open>
  Modelled from the spec: \<^verbatim>\<open>utils.findStockDatum\<close> is not part of the sources. The
  specification says it locates the stock record of the company; the model returns the
  position of the first document with that company name.
\<close>

fun findStockDatum :: "stock list \<Rightarrow> string \<Rightarrow> nat option" where
  "findStockDatum [] name = None"
| "findStockDatum (s # rest) name =
     (if company s = name then Some 0 else map_option Suc (findStockDatum rest name))"

text \<open>
  \<^verbatim>\<open>updateStocksData\<close> runs the body of every company's promise up to the call of
  \<^verbatim>\<open>getLatestStockPrices\<close> inside its loop, before any promise settles. What the rest of
  the body needs is kept in a task: the position of the document in \<^verbatim>\<open>results\<close>, and the
  variables \<^verbatim>\<open>existingArticles\<close> and \<^verbatim>\<open>newArticles\<close>.
\<close>

record task =
  task_index :: nat
  task_existing :: "article list"
  task_new :: "article list"

text \<open>The document that is created for a company without one.\<close>

definition newStockDatum :: "env \<Rightarrow> string \<Rightarrow> stock" where
  "newStockDatum E name =
     \<lparr>company = name,
      ticker = (case findTickerForCompanyWithName (companies E) name of
                  None \<Rightarrow> ''No Ticker Found''
                | Some t \<Rightarrow> if t = [] then ''No Ticker Found'' else t),
      history = [], price_history = []\<rparr>"

fun prepare :: "env \<Rightarrow> articleDatum list \<Rightarrow> stock list \<Rightarrow> task list \<times> stock list" where
  "prepare E [] results = ([], results)"
| "prepare E (ad # rest) results =
     (let (i, results') =
            (case findStockDatum results (datum_company ad) of
               Some i \<Rightarrow> (i, results)
             | None \<Rightarrow> (length results, results @ [newStockDatum E (datum_company ad)]));
          existingArticles = history (results' ! i);
          (tasks, results'') = prepare E rest results'
      in (\<lparr>task_index = i, task_existing = existingArticles,
            task_new = newArticles existingArticles (datum_articles ad)\<rparr> # tasks, results''))"

text \<open>
  The document the body of a company's promise works on: the one \<^verbatim>\<open>findStockDatum\<close>
  finds among the stored documents, or the new one.
\<close>

definition stockDatumFor :: "env \<Rightarrow> stock list \<Rightarrow> string \<Rightarrow> stock" where
  "stockDatumFor E stockData name =
     (case findStockDatum stockData name of
        Some i \<Rightarrow> stockData ! i
      | None \<Rightarrow> newStockDatum E name)"

text \<open>
  The price history that is kept after a successful fetch: for each date of an article,
  the pair \<^verbatim>\<open>getPairForDate\<close> finds, if any.
\<close>

definition filteredPriceHistory :: "env \<Rightarrow> article list \<Rightarrow> (string \<times> real) list \<Rightarrow> (string \<times> real) list" where
  "filteredPriceHistory E arts priceMap =
     (let neededDates =
            dedup [] (List.map_filter
              (\<lambda>a. case date a of None \<Rightarrow> None
                    | Some s \<Rightarrow> Some (convertArticleDateToAVDate E s)) arts);
          sortedPrices = convertPriceMapToList E priceMap
      in foldl (\<lambda>filtered d.
                  case getPairForDate (avDateStringToDate E) d (Some sortedPrices) of
                    None \<Rightarrow> filtered
                  | Some pair \<Rightarrow> AList.update (pair_date pair) (pair_price pair) filtered)
           [] neededDates)"

text \<open>
  The rest of a company's promise body, from \<^verbatim>\<open>if (newArticles.length > 0)\<close> on. The
  document is the one at the task's position; it is replaced by the updated one.
\<close>

definition settleTask :: "env \<Rightarrow> stock list \<times> stock list \<Rightarrow> task \<Rightarrow> stock list \<times> stock list" where
  "settleTask E st t =
     (let results = fst st; store = snd st; stockDatum = results ! task_index t in
      if task_new t \<noteq> [] then
        (let (stockDatum', store') =
               (case getLatestStockPrices (getPriceHistoryForTicker E) stockDatum of
                  Resolved updatedStock \<Rightarrow>
                    insertNewArticles E
                      (updatedStock\<lparr>price_history :=
                         filteredPriceHistory E (task_existing t @ task_new t)
                           (price_history updatedStock)\<rparr>)
                      (task_new t) store
                | Rejected error \<Rightarrow> insertNewArticles E stockDatum (task_new t) store)
         in (results[task_index t := stockDatum'], store'))
      else (results, store))"

text \<open>
  \<^verbatim>\<open>updateStocksData\<close>: the promise it returns is resolved with \<^verbatim>\<open>results\<close> in both
  branches. The documents of different companies are different objects, so the order in
  which their promises settle does not matter; the model settles them in list order.
\<close>

definition updateStocksData ::
  "env \<Rightarrow> articleDatum list \<Rightarrow> stock list \<Rightarrow> stock list \<Rightarrow> stock list promise \<times> stock list"
where
  "updateStocksData E articleData stockData store =
     (let (tasks, results) = prepare E articleData stockData;
          (results', store') = foldl (settleTask E) (results, store) tasks
      in (Resolved results', store'))"

section \<open>Fetching articles\<close>

text \<open>
  \<^verbatim>\<open>parseArticle\<close> throws when the label cannot be read, and the loop of
  \<^verbatim>\<open>parseResults\<close> ends with the first result that throws. \<^verbatim>\<open>data.results\<close> is taken
  to be an array.
\<close>

definition parseArticle :: "discoveryResult \<Rightarrow> reason + article" where
  "parseArticle r =
     (case label r of
        None \<Rightarrow> Inl (TypeError ''Cannot read properties of undefined'')
      | Some l \<Rightarrow>
          Inr \<lparr>url = result_url r, sentiment = l, date = crawl_date r,
               title = result_title r, source = forum_title r, imageURL = None\<rparr>)"

fun parseResults :: "discoveryResult list \<Rightarrow> reason + article list" where
  "parseResults [] = Inr []"
| "parseResults (r # rest) =
     (case parseArticle r of
        Inl e \<Rightarrow> Inl e
      | Inr a \<Rightarrow> (case parseResults rest of Inl e \<Rightarrow> Inl e | Inr as \<Rightarrow> Inr (a # as)))"

text \<open>
  The local \<^verbatim>\<open>filterDuplicates\<close>. \<^verbatim>\<open>seen\<close> is a plain object; the list holds its own
  keys. Once \<^verbatim>\<open>hasOwnProperty\<close> is one of them, \<^verbatim>\<open>seen.hasOwnProperty\<close> is the value
  \<^verbatim>\<open>true\<close> and calling it throws. The assignment \<^verbatim>\<open>seen['__proto__'] = true\<close> goes to
  the setter of the prototype and adds no key.
\<close>

fun filterDuplicates :: "string list \<Rightarrow> article list \<Rightarrow> reason + article list" where
  "filterDuplicates seen [] = Inr []"
| "filterDuplicates seen (a # rest) =
     (if ''hasOwnProperty'' \<in> set seen
      then Inl (TypeError ''seen.hasOwnProperty is not a function'')
      else if url a \<in> set seen then filterDuplicates seen rest
      else (case filterDuplicates (if url a = ''__proto__'' then seen else url a # seen) rest of
              Inl e \<Rightarrow> Inl e
            | Inr as \<Rightarrow> Inr (a # as)))"

text \<open>
  \<^verbatim>\<open>filterDuplicates(parseResults(results))\<close>, as the callback of a fulfilled query
  computes it.
\<close>

definition companyArticles :: "discoveryResult list \<Rightarrow> reason + article list" where
  "companyArticles results =
     (case parseResults results of
        Inl e \<Rightarrow> Inl e
      | Inr parsed \<Rightarrow> filterDuplicates [] parsed)"

text \<open>
  Truthiness of a rejection reason and its string form, as \<^verbatim>\<open>Array.prototype.join\<close>
  takes it (\<^verbatim>\<open>undefined\<close> gives the empty string).
\<close>

fun truthyReason :: "reason \<Rightarrow> bool" where
  "truthyReason Undefined = False"
| "truthyReason (Str s) = (s \<noteq> [])"
| "truthyReason (ErrorObj m) = True"
| "truthyReason (TypeError m) = True"

fun reasonString :: "reason \<Rightarrow> string" where
  "reasonString Undefined = []"
| "reasonString (Str s) = s"
| "reasonString (ErrorObj m) = (if m = [] then ''Error'' else ''Error: '' @ m)"
| "reasonString (TypeError m) = (if m = [] then ''TypeError'' else ''TypeError: '' @ m)"

fun join :: "string list \<Rightarrow> string" where
  "join [] = []"
| "join [x] = x"
| "join (x # y # ys) = x @ '','' @ join (y # ys)"

text \<open>
  The variables \<^verbatim>\<open>articleData\<close> and \<^verbatim>\<open>errors\<close> of \<^verbatim>\<open>getArticleDataForCompanies\<close>, and what
  the callback it hands to \<^verbatim>\<open>getArticleDataForCompany\<close> does to them: \<^verbatim>\<open>onError\<close> is
  the call \<^verbatim>\<open>callback([], error)\<close>, where a falsy error makes the callback append the
  empty array to \<^verbatim>\<open>articleData\<close>.
\<close>

record fetchState =
  articleData :: "articleDatum list"
  errors :: "reason list"

definition onError :: "reason \<Rightarrow> fetchState \<Rightarrow> fetchState" where
  "onError error st = (if truthyReason error then st\<lparr>errors := errors st @ [error]\<rparr> else st)"

text \<open>
  What happens when the query of a company settles. When it is fulfilled, the articles
  are parsed and the callback gets the company's data; when that throws, or when the query
  is rejected, the \<^verbatim>\<open>catch\<close> calls the callback with the error.
\<close>

definition onSettled :: "string \<Rightarrow> discoveryResult list promise \<Rightarrow> fetchState \<Rightarrow> fetchState" where
  "onSettled name outcome st =
     (case outcome of
        Resolved results \<Rightarrow>
          (case companyArticles results of
             Inr articles \<Rightarrow>
               st\<lparr>articleData := articleData st @
                    [\<lparr>datum_company = name, datum_articles = articles\<rparr>]\<rparr>
           | Inl error \<Rightarrow> onError error st)
      | Rejected error \<Rightarrow> onError error st)"

text \<open>
  The data a settled query adds to \<^verbatim>\<open>articleData\<close>: those of a fulfilled query whose
  callback did not throw.
\<close>

definition settledDatum :: "string \<Rightarrow> discoveryResult list promise \<Rightarrow> articleDatum option" where
  "settledDatum name outcome =
     (case outcome of
        Resolved results \<Rightarrow>
          (case companyArticles results of
             Inr articles \<Rightarrow> Some \<lparr>datum_company = name, datum_articles = articles\<rparr>
           | Inl error \<Rightarrow> None)
      | Rejected error \<Rightarrow> None)"

text \<open>
  \<^verbatim>\<open>Promise.all(promises)\<close> over the promises of the queries themselves. The list holds
  the queries in the order in which they settle, \<^verbatim>\<open>n\<close> is the number of queries not yet
  fulfilled. The final callback gets \<^verbatim>\<open>articleData\<close> alone once every query is
  fulfilled (whether or not its callback threw), and \<^verbatim>\<open>articleData\<close> with
  \<^verbatim>\<open>errors.join()\<close> at the first rejection (the company's own callback has run by
  then). It is never called when a query stays pending.
\<close>

fun settleQueries ::
  "nat \<Rightarrow> (string \<times> discoveryResult list promise) list \<Rightarrow> fetchState
     \<Rightarrow> (articleDatum list \<times> string option) option"
where
  "settleQueries 0 evs st = Some (articleData st, None)"
| "settleQueries (Suc n) [] st = None"
| "settleQueries (Suc n) ((name, outcome) # evs) st =
     (case outcome of
        Resolved results \<Rightarrow> settleQueries n evs (onSettled name outcome st)
      | Rejected error \<Rightarrow>
          Some (articleData (onSettled name outcome st),
                Some (join (map reasonString (errors (onSettled name outcome st))))))"

text \<open>
  \<^verbatim>\<open>getArticleDataForCompanies\<close>: one query per company. \<^verbatim>\<open>order\<close> lists the positions
  of the companies in the order in which their queries settle.
\<close>

definition getArticleDataForCompanies ::
  "env \<Rightarrow> string list \<Rightarrow> nat list \<Rightarrow> (articleDatum list \<times> string option) option"
where
  "getArticleDataForCompanies E names order =
     settleQueries (length names)
       (map (\<lambda>i. (names ! i, query E (names ! i))) (filter (\<lambda>i. i < length names) order))
       \<lparr>articleData = [], errors = []\<rparr>"

section \<open>The orchestrator\<close>

text \<open>
  \<^verbatim>\<open>StockUpdate.run\<close>. \<^verbatim>\<open>search\<close> is the way \<^verbatim>\<open>stock_db.search()\<close> settles, with the
  documents of its rows. The first component of the result is the way the promise of
  \<^verbatim>\<open>run\<close> settles, \<^verbatim>\<open>None\<close> when it never does; the second one is the list of documents
  handed to the store. Every \<^verbatim>\<open>reject()\<close> of \<^verbatim>\<open>run\<close> is without a reason.
\<close>

definition run ::
  "env \<Rightarrow> stock list promise \<Rightarrow> string list option \<Rightarrow> nat list \<Rightarrow> stock list
     \<Rightarrow> stock list promise option \<times> stock list"
where
  "run E search names order store =
     (if \<not> configured E then (Some (Rejected Undefined), store)
      else case search of
        Rejected docsErr \<Rightarrow> (Some (Rejected Undefined), store)
      | Resolved docs \<Rightarrow>
          (let names' = (case names of None \<Rightarrow> map company docs | Some ns \<Rightarrow> ns) in
           if length names' > 0 then
             (case getArticleDataForCompanies E names' order of
                None \<Rightarrow> (None, store)
              | Some (artData, articlesErr) \<Rightarrow>
                  if \<not> truthy articlesErr then
                    (case updateStocksData E artData docs store of
                       (settled, store') \<Rightarrow> (Some settled, store'))
                  else (Some (Rejected Undefined), store))
           else (Some (Rejected Undefined), store)))"

section \<open>Example data\<close>

definition exampleArticle :: "string \<Rightarrow> string option \<Rightarrow> article" where
  "exampleArticle u d =
     \<lparr>url = u, sentiment = ''neutral'', date = d, title = [], source = [], imageURL = None\<rparr>"

text \<open>
  An environment for the examples: a store that is configured, at most two articles per
  company, the helpers as modelled from the specification, a page fetch that fails for
  every URL, and a discovery service that fails for the company \<^verbatim>\<open>B\<close> only.
\<close>

definition exampleEnv :: env where
  "exampleEnv =
     \<lparr>configured = True,
      MAX_ARTICLES_PER_COMPANY = 2,
      companies = [(''A'', ''AAA''), (''B'', ''BBB'')],
      extractHTTPURL = extractHTTPURL_spec,
      extractDomain = extractDomain_spec,
      avDateStringToDate = avDateStringToDate_spec,
      convertArticleDateToAVDate = Some,
      convertPriceMapToList = map (\<lambda>(d, v). \<lparr>pair_date = d, pair_price = v\<rparr>),
      Date_parse = avDateStringToDate_spec,
      request = (\<lambda>u. TransportError),
      getPriceHistoryForTicker = (\<lambda>t. Rejected (ErrorObj ''limit'')),
      query = (\<lambda>c. if c = ''B'' then Rejected (ErrorObj ''timeout'')
                    else Resolved [\<lparr>result_url = ''u/'' @ c, label = Some ''positive'',
                                     crawl_date = Some ''2018-01-25'', result_title = ''t'',
                                     forum_title = ''f''\<rparr>])\<rparr>"

text \<open>Stored documents with two articles, with one article and without history.\<close>

definition exampleStock :: stock where
  "exampleStock =
     \<lparr>company = ''A'', ticker = ''AAA'',
      history = [exampleArticle ''old1'' (Some ''2018-01-20''),
                 exampleArticle ''old2'' (Some ''2018-01-10'')],
      price_history = [(''2018-01-10'', 9)]\<rparr>"

definition oldStock :: stock where
  "oldStock =
     \<lparr>company = ''A'', ticker = ''AAA'',
      history = [exampleArticle ''old'' (Some ''2018-01-10'')],
      price_history = [(''2018-01-10'', 9)]\<rparr>"

definition emptyStock :: stock where
  "emptyStock = \<lparr>company = ''A'', ticker = ''AAA'', history = [], price_history = []\<rparr>"

text \<open>The example environment with a page fetch that finds the same image on every page.\<close>

definition imageEnv :: env where
  "imageEnv = exampleEnv\<lparr>request := (\<lambda>u. Html (Some ''/img/a.png'') None)\<rparr>"

section \<open>Properties of the price alignment\<close>

lemma scanPairs_prefix:
  assumes "\<forall>p \<in> set pre. pair_date p \<noteq> d \<and> \<not> dateGT (avD (pair_date p)) (avD d)"
  shows "scanPairs avD d previous (pre @ rest) =
         scanPairs avD d (if pre = [] then previous else Some (last pre)) rest"
  using assms by (induction pre arbitrary: previous) auto

lemma dateGT_irrefl: "\<not> dateGT x x"
  by (cases x) auto

lemma dateGT_asym: "dateGT x y \<Longrightarrow> \<not> dateGT y x"
  by (cases x; cases y) auto

text \<open>
  Claim C3. On the empty list the lookup returns nothing, whatever the target date. On a
  non-empty list all of whose dates are strictly before the target date, the lookup
  returns the last pair of the list. (The list need not even be sorted for this.)
\<close>

theorem getPairForDate_empty_or_after_all:
  "getPairForDate avD date' (Some []) = None \<and>
   (d \<noteq> [] \<longrightarrow> ps \<noteq> [] \<longrightarrow> (\<forall>p \<in> set ps. dateGT (avD d) (avD (pair_date p))) \<longrightarrow>
      getPairForDate avD (Some d) (Some ps) = Some (last ps))"
proof
  show "getPairForDate avD date' (Some []) = None"
    by (simp add: getPairForDate_def split: option.splits)
next
  show "d \<noteq> [] \<longrightarrow> ps \<noteq> [] \<longrightarrow> (\<forall>p \<in> set ps. dateGT (avD d) (avD (pair_date p))) \<longrightarrow>
      getPairForDate avD (Some d) (Some ps) = Some (last ps)"
  proof (intro impI)
    assume d: "d \<noteq> []" and ne: "ps \<noteq> []"
      and after: "\<forall>p \<in> set ps. dateGT (avD d) (avD (pair_date p))"
    have "\<forall>p \<in> set ps. pair_date p \<noteq> d \<and> \<not> dateGT (avD (pair_date p)) (avD d)"
      using after dateGT_irrefl dateGT_asym by metis
    then have "scanPairs avD d None ps = scanPairs avD d (Some (last ps)) []"
      using scanPairs_prefix [of ps d avD None "[]"] ne by simp
    moreover have "dateGT (avD d) (avD (pair_date (last ps)))"
      using after ne by simp
    ultimately show "getPairForDate avD (Some d) (Some ps) = Some (last ps)"
      using d by (simp add: getPairForDate_def)
  qed
qed

theorem getPairForDate_empty_or_after_all_witness:
  "''2018-02-10'' \<noteq> [] \<and> examplePrices \<noteq> [] \<and>
   list_all (\<lambda>p. dateGT (avDateStringToDate_spec ''2018-02-10'')
                       (avDateStringToDate_spec (pair_date p))) examplePrices \<and>
   getPairForDate avDateStringToDate_spec (Some ''2018-02-10'') (Some examplePrices)
     = Some \<lparr>pair_date = ''2018-01-30'', pair_price = 15\<rparr>"
proof -
  have h: "\<forall>p \<in> set examplePrices.
      dateGT (avDateStringToDate_spec ''2018-02-10'') (avDateStringToDate_spec (pair_date p))"
    by (simp add: examplePrices_def avDateStringToDate_spec_def digitVal_def)
  have ne: "examplePrices \<noteq> []" by (simp add: examplePrices_def)
  have l: "last examplePrices = \<lparr>pair_date = ''2018-01-30'', pair_price = 15\<rparr>"
    by (simp add: examplePrices_def)
  have "getPairForDate avDateStringToDate_spec (Some ''2018-02-10'') (Some examplePrices)
     = Some (last examplePrices)"
    using getPairForDate_empty_or_after_all
            [of avDateStringToDate_spec None "''2018-02-10''" examplePrices] h ne
    by blast
  moreover have "list_all (\<lambda>p. dateGT (avDateStringToDate_spec ''2018-02-10'')
                       (avDateStringToDate_spec (pair_date p))) examplePrices"
    using h by (simp only: list_all_iff)
  ultimately show ?thesis using ne l by simp
qed

text \<open>
  Claim C4. On a list that is ascending by date, a pair whose date string is the target
  date is returned as it is (the first such pair). When no pair has the target date as
  its date string, the scan stops at the first pair that is strictly later than the target
  date and returns a new pair with the target date and the price of the pair just before
  it, or the price of that later pair when it is the first one of the list.
\<close>

theorem getPairForDate_exact_or_first_later:
  assumes "d \<noteq> []"
  shows "(ascending avD ps \<longrightarrow> ps = pre @ p # post \<longrightarrow> pair_date p = d \<longrightarrow>
            (\<forall>x \<in> set pre. pair_date x \<noteq> d) \<longrightarrow>
            getPairForDate avD (Some d) (Some ps) = Some p) \<and>
         ((\<forall>x \<in> set ps. pair_date x \<noteq> d) \<longrightarrow> ps = pre' @ q # post' \<longrightarrow>
            (\<forall>x \<in> set pre'. \<not> dateGT (avD (pair_date x)) (avD d)) \<longrightarrow>
            dateGT (avD (pair_date q)) (avD d) \<longrightarrow>
            getPairForDate avD (Some d) (Some ps) =
              Some \<lparr>pair_date = d,
                    pair_price = (if pre' = [] then pair_price q else pair_price (last pre'))\<rparr>)"
proof (intro conjI impI)
  assume asc: "ascending avD ps" and ps: "ps = pre @ p # post" and p: "pair_date p = d"
    and pre: "\<forall>x \<in> set pre. pair_date x \<noteq> d"
  have "\<forall>x \<in> set pre. \<not> dateGT (avD (pair_date x)) (avD (pair_date p))"
    using asc unfolding ascending_def ps by (simp add: sorted_wrt_append)
  with pre p have "\<forall>x \<in> set pre. pair_date x \<noteq> d \<and> \<not> dateGT (avD (pair_date x)) (avD d)"
    by simp
  then have "scanPairs avD d None (pre @ p # post) =
             scanPairs avD d (if pre = [] then None else Some (last pre)) (p # post)"
    by (rule scanPairs_prefix)
  then show "getPairForDate avD (Some d) (Some ps) = Some p"
    using assms p by (simp add: getPairForDate_def ps)
next
  assume no: "\<forall>x \<in> set ps. pair_date x \<noteq> d" and ps: "ps = pre' @ q # post'"
    and pre: "\<forall>x \<in> set pre'. \<not> dateGT (avD (pair_date x)) (avD d)"
    and q: "dateGT (avD (pair_date q)) (avD d)"
  have "\<forall>x \<in> set pre'. pair_date x \<noteq> d \<and> \<not> dateGT (avD (pair_date x)) (avD d)"
    using no pre ps by simp
  then have "scanPairs avD d None (pre' @ q # post') =
             scanPairs avD d (if pre' = [] then None else Some (last pre')) (q # post')"
    by (rule scanPairs_prefix)
  moreover have "pair_date q \<noteq> d" using no ps by simp
  ultimately show "getPairForDate avD (Some d) (Some ps) =
              Some \<lparr>pair_date = d,
                    pair_price = (if pre' = [] then pair_price q else pair_price (last pre'))\<rparr>"
    using assms q by (simp add: getPairForDate_def ps)
qed

lemma ex_dates:
  "avDateStringToDate_spec ''2018-01-20'' = Some 750747"
  "avDateStringToDate_spec ''2018-01-25'' = Some 750752"
  "avDateStringToDate_spec ''2018-01-26'' = Some 750753"
  "avDateStringToDate_spec ''2018-01-30'' = Some 750757"
  by (simp_all add: avDateStringToDate_spec_def digitVal_def)

theorem getPairForDate_exact_or_first_later_witness:
  "''2018-01-26'' \<noteq> [] \<and> ascending avDateStringToDate_spec examplePrices \<and>
   getPairForDate avDateStringToDate_spec (Some ''2018-01-25'') (Some examplePrices)
     = Some \<lparr>pair_date = ''2018-01-25'', pair_price = 12\<rparr> \<and>
   list_all (\<lambda>x. pair_date x \<noteq> ''2018-01-26'') examplePrices \<and>
   getPairForDate avDateStringToDate_spec (Some ''2018-01-26'') (Some examplePrices)
     = Some \<lparr>pair_date = ''2018-01-26'', pair_price = 12\<rparr>"
proof -
  let ?a = "\<lparr>pair_date = ''2018-01-20'', pair_price = 10\<rparr>"
  let ?b = "\<lparr>pair_date = ''2018-01-25'', pair_price = 12\<rparr>"
  let ?c = "\<lparr>pair_date = ''2018-01-30'', pair_price = 15\<rparr>"
  have asc: "ascending avDateStringToDate_spec examplePrices"
    by (simp add: ascending_def examplePrices_def ex_dates)
  have e1: "examplePrices = [?a] @ ?b # [?c]" and e2: "examplePrices = [?a, ?b] @ ?c # []"
    by (simp_all add: examplePrices_def)
  have no: "\<forall>x \<in> set examplePrices. pair_date x \<noteq> ''2018-01-26''"
    by (simp add: examplePrices_def)
  have r1: "getPairForDate avDateStringToDate_spec (Some ''2018-01-25'') (Some examplePrices) = Some ?b"
    using getPairForDate_exact_or_first_later
            [of "''2018-01-25''" avDateStringToDate_spec examplePrices "[?a]" ?b "[?c]"] asc e1
    by simp
  have r2: "getPairForDate avDateStringToDate_spec (Some ''2018-01-26'') (Some examplePrices)
              = Some \<lparr>pair_date = ''2018-01-26'', pair_price = 12\<rparr>"
    using getPairForDate_exact_or_first_later
            [of "''2018-01-26''" avDateStringToDate_spec examplePrices _ _ _ "[?a, ?b]" ?c "[]"] no e2
    by (simp add: ex_dates)
  have "list_all (\<lambda>x. pair_date x \<noteq> ''2018-01-26'') examplePrices"
    using no by (simp only: list_all_iff)
  with asc r1 r2 show ?thesis by simp
qed

section \<open>Properties of the article filter and of the image resolver\<close>

lemma articleContains_iff: "articleContains a xs \<longleftrightarrow> url a \<in> url ` set xs"
  by (induction xs) auto

text \<open>
  Claim C7. The new articles are exactly the incoming articles whose URL is not the URL
  of an existing article, in the order of the incoming list. With the existing URLs
  \<^verbatim>\<open>a\<close>, \<^verbatim>\<open>b\<close> and the incoming URLs \<^verbatim>\<open>b\<close>, \<^verbatim>\<open>c\<close> the only new article is \<^verbatim>\<open>c\<close>.
\<close>

theorem newArticles_exact:
  "newArticles existing incoming = filter (\<lambda>a. url a \<notin> url ` set existing) incoming \<and>
   newArticles [exampleArticle ''a'' None, exampleArticle ''b'' None]
               [exampleArticle ''b'' None, exampleArticle ''c'' None]
     = [exampleArticle ''c'' None]"
  by (simp add: newArticles_def articleContains_iff exampleArticle_def)

text \<open>
  Claim C9. When the image source found on the page is not recognised as an HTTP URL by
  \<^verbatim>\<open>utils.extractHTTPURL\<close>, the image URL is the domain of the article URL, a slash,
  and the source without its leading slash if it has one. The witness is the example of
  the specification, with the helpers as the specification describes them.
\<close>

theorem relative_image_url:
  assumes "req (url a) = Html rootSrc bodySrc"
    and "(if truthy rootSrc then rootSrc else bodySrc) = Some imgSrc"
    and "imgSrc \<noteq> []"
    and "\<not> truthy (eH imgSrc)"
  shows "getImageForArticle eH eD req a =
           Resolved (Some \<lparr>res_url = url a,
             res_imageURL = eD (url a) @ ''/'' @
               (if hd imgSrc = CHR ''/'' then tl imgSrc else imgSrc)\<rparr>)"
proof -
  have "stripSlash imgSrc = (if hd imgSrc = CHR ''/'' then tl imgSrc else imgSrc)"
    using assms(3) by (cases imgSrc) (simp_all add: stripSlash_def)
  then show ?thesis
    using assms by (simp add: getImageForArticle_def Let_def)
qed

lemma example_domain: "extractDomain_spec ''http://example.com/news/1'' = ''http://example.com''"
  by simp

theorem relative_image_url_witness:
  "(\<lambda>u. Html (Some ''/img/a.png'') None) (url (exampleArticle ''http://example.com/news/1'' None))
     = Html (Some ''/img/a.png'') None \<and>
   (if truthy (Some ''/img/a.png'') then Some ''/img/a.png'' else None) = Some ''/img/a.png'' \<and>
   ''/img/a.png'' \<noteq> [] \<and>
   \<not> truthy (extractHTTPURL_spec ''/img/a.png'') \<and>
   getImageForArticle extractHTTPURL_spec extractDomain_spec (\<lambda>u. Html (Some ''/img/a.png'') None)
       (exampleArticle ''http://example.com/news/1'' None)
     = Resolved (Some \<lparr>res_url = ''http://example.com/news/1'',
                        res_imageURL = ''http://example.com/img/a.png''\<rparr>)"
proof -
  let ?a = "exampleArticle ''http://example.com/news/1'' None"
  let ?req = "\<lambda>u::string. Html (Some ''/img/a.png'') None"
  have h2: "(if truthy (Some ''/img/a.png'') then Some ''/img/a.png'' else None) = Some ''/img/a.png''"
    by (simp add: truthy_def)
  have h4: "\<not> truthy (extractHTTPURL_spec ''/img/a.png'')"
    by (simp add: truthy_def extractHTTPURL_spec_def)
  have u: "url ?a = ''http://example.com/news/1''"
    by (simp add: exampleArticle_def)
  have "getImageForArticle extractHTTPURL_spec extractDomain_spec ?req ?a =
          Resolved (Some \<lparr>res_url = url ?a,
             res_imageURL = extractDomain_spec (url ?a) @ ''/'' @
               (if hd ''/img/a.png'' = CHR ''/'' then tl ''/img/a.png'' else ''/img/a.png'')\<rparr>)"
    using relative_image_url [of ?req ?a "Some ''/img/a.png''" None "''/img/a.png''" extractHTTPURL_spec
            extractDomain_spec] h2 h4
    by simp
  then show ?thesis using h2 h4 by (simp add: u example_domain)
qed

text \<open>
  Claim C2 fails as stated: on a transport error the promise of \<^verbatim>\<open>getImageForArticle\<close>
  is rejected.
\<close>

theorem image_resolver_rejects_counterexample:
  "getImageForArticle extractHTTPURL_spec extractDomain_spec (\<lambda>u. TransportError)
     (exampleArticle ''http://example.com/news/1'' None) = Rejected Undefined"
  by (simp add: getImageForArticle_def)

text \<open>
  Claim C2, amended. The promise of \<^verbatim>\<open>getImageForArticle\<close> is rejected, without a
  reason, exactly on a transport error; when the page is fetched it is resolved, with
  nothing when the page has no image. The batch \<^verbatim>\<open>getImages\<close> catches the rejection:
  it always resolves, and every result it collects is the result of an article whose own
  promise resolved with an image.
\<close>

theorem image_resolver_settles:
  "(req (url a) = TransportError \<longrightarrow> getImageForArticle eH eD req a = Rejected Undefined) \<and>
   (req (url a) \<noteq> TransportError \<longrightarrow> (\<exists>v. getImageForArticle eH eD req a = Resolved v)) \<and>
   (req (url a) = Html rootSrc bodySrc \<and> \<not> truthy rootSrc \<and> \<not> truthy bodySrc \<longrightarrow>
      getImageForArticle eH eD req a = Resolved None) \<and>
   (\<exists>rs. getImages eH eD req arts = Resolved rs \<and>
      (\<forall>r \<in> set rs. \<exists>a' \<in> set arts. getImageForArticle eH eD req a' = Resolved (Some r)))"
proof (intro conjI impI)
  show "req (url a) = TransportError \<Longrightarrow> getImageForArticle eH eD req a = Rejected Undefined"
    by (simp add: getImageForArticle_def)
next
  assume "req (url a) \<noteq> TransportError"
  then show "\<exists>v. getImageForArticle eH eD req a = Resolved v"
    by (cases "req (url a)") (auto simp: getImageForArticle_def split: option.splits)
next
  assume "req (url a) = Html rootSrc bodySrc \<and> \<not> truthy rootSrc \<and> \<not> truthy bodySrc"
  then show "getImageForArticle eH eD req a = Resolved None"
    by (auto simp: getImageForArticle_def truthy_def split: option.splits)
next
  show "\<exists>rs. getImages eH eD req arts = Resolved rs \<and>
      (\<forall>r \<in> set rs. \<exists>a' \<in> set arts. getImageForArticle eH eD req a' = Resolved (Some r))"
    unfolding getImages_def
    by (auto simp: List.map_filter_def split: promise.splits option.splits if_splits)
qed

theorem image_resolver_settles_witness:
  "(\<lambda>u. TransportError) (url (exampleArticle ''http://example.com/news/1'' None)) = TransportError \<and>
   getImageForArticle extractHTTPURL_spec extractDomain_spec (\<lambda>u. TransportError)
     (exampleArticle ''http://example.com/news/1'' None) = Rejected Undefined \<and>
   getImages extractHTTPURL_spec extractDomain_spec (\<lambda>u. TransportError)
     [exampleArticle ''http://example.com/news/1'' None] = Resolved []"
proof -
  let ?a = "exampleArticle ''http://example.com/news/1'' None"
  let ?req = "\<lambda>u::string. TransportError"
  note t = image_resolver_settles [of ?req ?a extractHTTPURL_spec extractDomain_spec None None "[?a]"]
  from t have r: "getImageForArticle extractHTTPURL_spec extractDomain_spec ?req ?a = Rejected Undefined"
    by simp
  from t obtain rs where rs: "getImages extractHTTPURL_spec extractDomain_spec ?req [?a] = Resolved rs"
    and sub: "\<forall>r \<in> set rs. \<exists>a' \<in> set [?a].
                 getImageForArticle extractHTTPURL_spec extractDomain_spec ?req a' = Resolved (Some r)"
    by blast
  from sub r have "rs = []" by (cases rs) auto
  with rs r show ?thesis by simp
qed

section \<open>Attaching images and sorting: auxiliary facts\<close>

lemma attachImage_frame:
  "list_all2 (\<lambda>a a'. a' = a \<or> (res_url r = url a \<and> a' = a\<lparr>imageURL := Some (res_imageURL r)\<rparr>))
     xs (attachImage r xs)"
  by (induction xs) (auto simp: list_all2_refl)

lemma attachImages_frame:
  "list_all2 (\<lambda>a a'. a' = a \<or>
       (\<exists>r \<in> set rs. res_url r = url a \<and> a' = a\<lparr>imageURL := Some (res_imageURL r)\<rparr>))
     xs (attachImages rs xs)"
proof (induction rs arbitrary: xs)
  case Nil
  then show ?case by (simp add: attachImages_def list_all2_refl)
next
  case (Cons r rs)
  have step: "attachImages (r # rs) xs = attachImages rs (attachImage r xs)"
    by (simp add: attachImages_def)
  show ?case
    unfolding step
  proof (rule list_all2_trans [OF _ attachImage_frame [of r xs] Cons.IH [of "attachImage r xs"]])
    fix a b c :: article
    assume ab: "b = a \<or> (res_url r = url a \<and> b = a\<lparr>imageURL := Some (res_imageURL r)\<rparr>)"
      and bc: "c = b \<or> (\<exists>r' \<in> set rs. res_url r' = url b \<and> c = b\<lparr>imageURL := Some (res_imageURL r')\<rparr>)"
    from ab have ub: "url b = url a" by auto
    from ab bc ub show "c = a \<or> (\<exists>r' \<in> set (r # rs). res_url r' = url a \<and>
                            c = a\<lparr>imageURL := Some (res_imageURL r')\<rparr>)"
      by auto
  qed
qed

lemma attachImages_length: "length (attachImages rs xs) = length xs"
  using attachImages_frame [of rs xs] by (simp add: list_all2_lengthD)

lemma list_all2_map_eq: "list_all2 (\<lambda>a a'. f a' = f a) xs ys \<Longrightarrow> map f ys = map f xs"
  by (induction rule: list_all2_induct) auto

lemma attachImages_url: "map url (attachImages rs xs) = map url xs"
proof (rule list_all2_map_eq)
  show "list_all2 (\<lambda>a a'. url a' = url a) xs (attachImages rs xs)"
    by (rule list_all2_mono [OF attachImages_frame]) auto
qed

lemma attachImages_time:
  "map (articleTime P) (attachImages rs xs) = map (articleTime P) xs"
proof (rule list_all2_map_eq)
  show "list_all2 (\<lambda>a a'. articleTime P a' = articleTime P a) xs (attachImages rs xs)"
    by (rule list_all2_mono [OF attachImages_frame]) (auto simp: articleTime_def)
qed

lemma mset_take_drop: "mset (take k ys) + mset (drop k ys) = mset ys"
  by (metis append_take_drop_id mset_append)

lemma mset_binaryInsert: "mset (binaryInsert P pre pivot) = add_mset pivot (mset pre)"
proof -
  let ?k = "binarySearch P pivot pre 0 (length pre)"
  have "mset (take ?k pre @ pivot # drop ?k pre)
          = add_mset pivot (mset (take ?k pre) + mset (drop ?k pre))"
    by simp
  also have "\<dots> = add_mset pivot (mset pre)"
    by (simp only: mset_take_drop)
  finally show ?thesis by (simp only: binaryInsert_def Let_def)
qed

lemma mset_foldl_binaryInsert:
  "mset (foldl (binaryInsert P) pre rest) = mset pre + mset rest"
  by (induction rest arbitrary: pre) (simp_all add: mset_binaryInsert)

lemma mset_countAndMakeRun:
  assumes "countAndMakeRun P xs = (w, n)"
  shows "mset w = mset xs"
proof -
  have r: "mset (rev (take k xs) @ drop k xs) = mset xs" for k
    by (simp add: mset_take_drop)
  have "w = xs \<or> (\<exists>k. w = rev (take k xs) @ drop k xs)"
  proof (cases xs)
    case Nil
    then show ?thesis using assms by (simp add: countAndMakeRun_def)
  next
    case (Cons a ys)
    show ?thesis
    proof (cases ys)
      case Nil
      then show ?thesis using assms Cons by (simp add: countAndMakeRun_def)
    next
      case (Cons b rest)
      let ?d = "callCompare P b a < 0"
      let ?n = "2 + runLength P ?d b rest"
      have "countAndMakeRun P xs
              = (if ?d then rev (take ?n xs) @ drop ?n xs else xs, ?n)"
        unfolding countAndMakeRun_def \<open>xs = a # ys\<close> Cons by (simp only: list.case Let_def)
      then have "w = (if ?d then rev (take ?n xs) @ drop ?n xs else xs)"
        using assms by simp
      then show ?thesis by (cases ?d) auto
    qed
  qed
  then show ?thesis using r by auto
qed

lemma mset_sortArticles: "mset (sortArticles P xs) = mset xs"
proof -
  obtain w n where c: "countAndMakeRun P xs = (w, n)"
    by (cases "countAndMakeRun P xs") auto
  have "mset (sortArticles P xs) = mset (take n w) + mset (drop n w)"
    by (simp add: sortArticles_def c mset_foldl_binaryInsert)
  also have "\<dots> = mset w"
    by (rule mset_take_drop)
  finally show ?thesis using mset_countAndMakeRun [OF c] by simp
qed

lemma set_sortArticles: "set (sortArticles P xs) = set xs"
  using mset_sortArticles [of P xs] by (metis set_mset_mset)

lemma length_sortArticles: "length (sortArticles P xs) = length xs"
  using mset_sortArticles [of P xs] by (metis size_mset)

text \<open>
  When the dates are valid, the comparison is the difference of the two time values, and
  each part of the sort keeps the most recent articles first.
\<close>

lemma callCompare_valid:
  assumes "articleTime P x \<noteq> None" and "articleTime P y \<noteq> None"
  shows "callCompare P x y = the (articleTime P y) - the (articleTime P x)"
  using assms by (auto simp: callCompare_def comparefn_def)

lemma runLength_le: "runLength P d prev xs \<le> length xs"
  by (induction xs arbitrary: prev) (simp_all add: Let_def)

lemma run_not_descending:
  assumes "\<forall>x \<in> set (prev # xs). articleTime P x \<noteq> None"
  shows "sorted_wrt (\<lambda>x y. the (articleTime P y) \<le> the (articleTime P x))
           (prev # take (runLength P False prev xs) xs)"
  using assms
proof (induction xs arbitrary: prev)
  case Nil
  then show ?case by simp
next
  case (Cons c cs)
  have cmp: "callCompare P c prev = the (articleTime P prev) - the (articleTime P c)"
    using Cons.prems by (intro callCompare_valid) simp_all
  show ?case
  proof (cases "callCompare P c prev < 0")
    case True
    then show ?thesis by (simp add: Let_def)
  next
    case False
    have ih: "sorted_wrt (\<lambda>x y. the (articleTime P y) \<le> the (articleTime P x))
            (c # take (runLength P False c cs) cs)"
      using Cons.prems by (intro Cons.IH) simp
    have le: "the (articleTime P c) \<le> the (articleTime P prev)"
      using False cmp by simp
    have "\<forall>x \<in> set (take (runLength P False c cs) cs).
            the (articleTime P x) \<le> the (articleTime P prev)"
      using ih le by fastforce
    then show ?thesis
      using False ih le by (simp add: Let_def)
  qed
qed

lemma run_descending:
  assumes "\<forall>x \<in> set (prev # xs). articleTime P x \<noteq> None"
  shows "sorted_wrt (\<lambda>x y. the (articleTime P x) < the (articleTime P y))
           (prev # take (runLength P True prev xs) xs)"
  using assms
proof (induction xs arbitrary: prev)
  case Nil
  then show ?case by simp
next
  case (Cons c cs)
  have cmp: "callCompare P c prev = the (articleTime P prev) - the (articleTime P c)"
    using Cons.prems by (intro callCompare_valid) simp_all
  show ?case
  proof (cases "0 \<le> callCompare P c prev")
    case True
    then show ?thesis by (simp add: Let_def)
  next
    case False
    have ih: "sorted_wrt (\<lambda>x y. the (articleTime P x) < the (articleTime P y))
            (c # take (runLength P True c cs) cs)"
      using Cons.prems by (intro Cons.IH) simp
    have le: "the (articleTime P prev) < the (articleTime P c)"
      using False cmp by simp
    have "\<forall>x \<in> set (take (runLength P True c cs) cs).
            the (articleTime P prev) < the (articleTime P x)"
      using ih le by fastforce
    then show ?thesis
      using False ih le by (simp add: Let_def)
  qed
qed

lemma countAndMakeRun_sorted:
  assumes "\<forall>x \<in> set xs. articleTime P x \<noteq> None" and "countAndMakeRun P xs = (w, n)"
  shows "sorted_wrt (\<lambda>x y. the (articleTime P y) \<le> the (articleTime P x)) (take n w)"
proof (cases xs)
  case Nil
  then show ?thesis using assms(2) by (simp add: countAndMakeRun_def)
next
  case (Cons a ys)
  show ?thesis
  proof (cases ys)
    case Nil
    then show ?thesis using assms(2) Cons by (auto simp: countAndMakeRun_def)
  next
    case (Cons b rest)
    note xs = \<open>xs = a # ys\<close> Cons
    have cmp: "callCompare P b a = the (articleTime P a) - the (articleTime P b)"
      using assms(1) xs by (intro callCompare_valid) simp_all
    let ?d = "callCompare P b a < 0"
    let ?r = "runLength P ?d b rest"
    have n: "n = 2 + ?r" and w: "w = (if ?d then rev (take n xs) @ drop n xs else xs)"
      using assms(2) xs by (auto simp: countAndMakeRun_def Let_def)
    have tk: "take n xs = a # b # take ?r rest"
      by (simp add: n xs)
    have len: "n \<le> length xs"
      using runLength_le [of P ?d b rest] by (simp add: n xs)
    show ?thesis
    proof (cases ?d)
      case True
      have ih: "sorted_wrt (\<lambda>x y. the (articleTime P x) < the (articleTime P y)) (b # take ?r rest)"
        using assms(1) xs True run_descending [of b rest P] by simp
      have lt: "the (articleTime P a) < the (articleTime P b)"
        using True cmp by simp
      have "\<forall>x \<in> set (take ?r rest). the (articleTime P a) < the (articleTime P x)"
        using ih lt by fastforce
      then have "sorted_wrt (\<lambda>x y. the (articleTime P x) < the (articleTime P y)) (take n xs)"
        using ih lt by (simp add: tk)
      then have "sorted_wrt (\<lambda>x y. the (articleTime P y) < the (articleTime P x)) (rev (take n xs))"
        by (simp add: sorted_wrt_rev)
      then have "sorted_wrt (\<lambda>x y. the (articleTime P y) \<le> the (articleTime P x)) (rev (take n xs))"
        by (rule sorted_wrt_mono_rel [rotated]) simp
      moreover have "take n w = rev (take n xs)"
        using True len by (simp add: w)
      ultimately show ?thesis by simp
    next
      case False
      have ih: "sorted_wrt (\<lambda>x y. the (articleTime P y) \<le> the (articleTime P x)) (b # take ?r rest)"
        using assms(1) xs False run_not_descending [of b rest P] by simp
      have le: "the (articleTime P b) \<le> the (articleTime P a)"
        using False cmp by simp
      have "\<forall>x \<in> set (take ?r rest). the (articleTime P x) \<le> the (articleTime P a)"
        using ih le by fastforce
      then show ?thesis
        using False ih le by (simp add: w tk)
    qed
  qed
qed

lemma binarySearch_bounds:
  "left \<le> right \<Longrightarrow> left \<le> binarySearch P pivot w left right \<and> binarySearch P pivot w left right \<le> right"
proof (induction P pivot w left right rule: binarySearch.induct)
  case (1 P pivot w left right)
  show ?case
  proof (cases "left < right")
    case False
    then have "binarySearch P pivot w left right = left"
      by (subst binarySearch.simps) simp
    then show ?thesis using "1.prems" by simp
  next
    case True
    let ?mid = "left + (right - left) div 2"
    have mid: "left \<le> ?mid" "?mid < right" using True by auto
    show ?thesis
    proof (cases "callCompare P pivot (w ! ?mid) < 0")
      case c: True
      have eq: "binarySearch P pivot w left right = binarySearch P pivot w left ?mid"
        using True c by (subst binarySearch.simps) (simp add: Let_def)
      have "left \<le> binarySearch P pivot w left ?mid \<and> binarySearch P pivot w left ?mid \<le> ?mid"
        using "1.IH"(1) [OF True refl c] mid by simp
      then show ?thesis
        unfolding eq using mid by simp
    next
      case c: False
      have eq: "binarySearch P pivot w left right = binarySearch P pivot w (?mid + 1) right"
        using True c by (subst binarySearch.simps) (simp add: Let_def)
      have "?mid + 1 \<le> binarySearch P pivot w (?mid + 1) right \<and>
            binarySearch P pivot w (?mid + 1) right \<le> right"
        using "1.IH"(2) [OF True refl c] mid by simp
      then show ?thesis
        unfolding eq using mid by simp
    qed
  qed
qed

lemma binarySearch_place:
  assumes "sorted_wrt (\<lambda>x y. the (articleTime P y) \<le> the (articleTime P x)) w"
    and "\<forall>x \<in> set w. articleTime P x \<noteq> None" and "articleTime P pivot \<noteq> None"
    and "left \<le> right" and "right \<le> length w"
    and "\<forall>i < left. the (articleTime P pivot) \<le> the (articleTime P (w ! i))"
    and "\<forall>i. right \<le> i \<and> i < length w \<longrightarrow> the (articleTime P (w ! i)) < the (articleTime P pivot)"
  shows "(\<forall>i < binarySearch P pivot w left right.
            the (articleTime P pivot) \<le> the (articleTime P (w ! i))) \<and>
         (\<forall>i. binarySearch P pivot w left right \<le> i \<and> i < length w \<longrightarrow>
            the (articleTime P (w ! i)) < the (articleTime P pivot))"
  using assms
proof (induction P pivot w left right rule: binarySearch.induct)
  case (1 P pivot w left right)
  show ?case
  proof (cases "left < right")
    case False
    then have "binarySearch P pivot w left right = left"
      by (subst binarySearch.simps) simp
    moreover have "left = right" using False "1.prems"(4) by simp
    ultimately show ?thesis using "1.prems"(6,7) by simp
  next
    case True
    let ?mid = "left + (right - left) div 2"
    have mid: "left \<le> ?mid" "?mid < right" "?mid < length w"
      using True "1.prems"(5) by auto
    have cmp: "callCompare P pivot (w ! ?mid)
                 = the (articleTime P (w ! ?mid)) - the (articleTime P pivot)"
      using "1.prems"(2,3) mid(3) by (intro callCompare_valid) simp_all
    have srt: "the (articleTime P (w ! j)) \<le> the (articleTime P (w ! i))"
      if "i \<le> j" "j < length w" for i j
    proof (cases "i = j")
      case True
      then show ?thesis by simp
    next
      case False
      then show ?thesis
        using that "1.prems"(1) by (simp add: sorted_wrt_iff_nth_less)
    qed
    show ?thesis
    proof (cases "callCompare P pivot (w ! ?mid) < 0")
      case c: True
      have eq: "binarySearch P pivot w left right = binarySearch P pivot w left ?mid"
        using True c by (subst binarySearch.simps) (simp add: Let_def)
      have below: "\<forall>i. ?mid \<le> i \<and> i < length w \<longrightarrow>
                     the (articleTime P (w ! i)) < the (articleTime P pivot)"
      proof (intro allI impI)
        fix i assume i: "?mid \<le> i \<and> i < length w"
        have "the (articleTime P (w ! i)) \<le> the (articleTime P (w ! ?mid))"
          using srt [of ?mid i] i by simp
        moreover have "the (articleTime P (w ! ?mid)) < the (articleTime P pivot)"
          using c cmp by simp
        ultimately show "the (articleTime P (w ! i)) < the (articleTime P pivot)" by simp
      qed
      show ?thesis
        unfolding eq
        using "1.IH"(1) [OF True refl c "1.prems"(1,2,3) mid(1) _ "1.prems"(6) below] mid(3)
        by simp
    next
      case c: False
      have eq: "binarySearch P pivot w left right = binarySearch P pivot w (?mid + 1) right"
        using True c by (subst binarySearch.simps) (simp add: Let_def)
      have above: "\<forall>i < ?mid + 1. the (articleTime P pivot) \<le> the (articleTime P (w ! i))"
      proof (intro allI impI)
        fix i assume i: "i < ?mid + 1"
        have "the (articleTime P (w ! ?mid)) \<le> the (articleTime P (w ! i))"
          using srt [of i ?mid] i mid(3) by simp
        moreover have "the (articleTime P pivot) \<le> the (articleTime P (w ! ?mid))"
          using c cmp by simp
        ultimately show "the (articleTime P pivot) \<le> the (articleTime P (w ! i))" by simp
      qed
      have le: "?mid + 1 \<le> right" using mid(2) by simp
      show ?thesis
        unfolding eq
        using "1.IH"(2) [OF True refl c "1.prems"(1,2,3) le "1.prems"(5) above "1.prems"(7)]
        by simp
    qed
  qed
qed

lemma binaryInsert_sorted:
  assumes "sorted_wrt (\<lambda>x y. the (articleTime P y) \<le> the (articleTime P x)) pre"
    and "\<forall>x \<in> set pre. articleTime P x \<noteq> None" and "articleTime P pivot \<noteq> None"
  shows "sorted_wrt (\<lambda>x y. the (articleTime P y) \<le> the (articleTime P x)) (binaryInsert P pre pivot)"
proof -
  let ?k = "binarySearch P pivot pre 0 (length pre)"
  have k: "?k \<le> length pre"
    using binarySearch_bounds [of 0 "length pre" P pivot pre] by simp
  have place:
    "(\<forall>i < ?k. the (articleTime P pivot) \<le> the (articleTime P (pre ! i))) \<and>
     (\<forall>i. ?k \<le> i \<and> i < length pre \<longrightarrow> the (articleTime P (pre ! i)) < the (articleTime P pivot))"
    using assms by (intro binarySearch_place) simp_all
  have before: "the (articleTime P pivot) \<le> the (articleTime P x)" if "x \<in> set (take ?k pre)" for x
  proof -
    from that obtain i where "i < ?k" "i < length pre" "x = pre ! i"
      by (auto simp: in_set_conv_nth)
    then show ?thesis using place by simp
  qed
  have after: "the (articleTime P y) \<le> the (articleTime P pivot)" if "y \<in> set (drop ?k pre)" for y
  proof -
    from that obtain i where "i < length pre - ?k" "y = pre ! (?k + i)"
      by (auto simp: in_set_conv_nth)
    then have "the (articleTime P y) < the (articleTime P pivot)" using place by simp
    then show ?thesis by simp
  qed
  have "sorted_wrt (\<lambda>x y. the (articleTime P y) \<le> the (articleTime P x)) (take ?k pre @ drop ?k pre)"
    using assms(1) by simp
  then have parts: "sorted_wrt (\<lambda>x y. the (articleTime P y) \<le> the (articleTime P x)) (take ?k pre)"
    "sorted_wrt (\<lambda>x y. the (articleTime P y) \<le> the (articleTime P x)) (drop ?k pre)"
    "\<forall>x \<in> set (take ?k pre). \<forall>y \<in> set (drop ?k pre). the (articleTime P y) \<le> the (articleTime P x)"
    unfolding sorted_wrt_append by blast+
  show ?thesis
    unfolding binaryInsert_def Let_def sorted_wrt_append
    using parts before after by auto
qed

lemma foldl_binaryInsert_sorted:
  assumes "sorted_wrt (\<lambda>x y. the (articleTime P y) \<le> the (articleTime P x)) pre"
    and "\<forall>x \<in> set pre \<union> set rest. articleTime P x \<noteq> None"
  shows "sorted_wrt (\<lambda>x y. the (articleTime P y) \<le> the (articleTime P x))
           (foldl (binaryInsert P) pre rest)"
  using assms
proof (induction rest arbitrary: pre)
  case Nil
  then show ?case by simp
next
  case (Cons p rest)
  have s: "sorted_wrt (\<lambda>x y. the (articleTime P y) \<le> the (articleTime P x)) (binaryInsert P pre p)"
    using Cons.prems by (intro binaryInsert_sorted) simp_all
  have "set (binaryInsert P pre p) = insert p (set pre)"
    using mset_binaryInsert [of P pre p] by (metis set_mset_add_mset_insert set_mset_mset)
  then have v: "\<forall>x \<in> set (binaryInsert P pre p) \<union> set rest. articleTime P x \<noteq> None"
    using Cons.prems(2) by simp
  from Cons.IH [OF s v] show ?case by simp
qed

lemma sorted_sortArticles:
  assumes "\<forall>x \<in> set xs. articleTime P x \<noteq> None"
  shows "sorted_wrt (\<lambda>x y. the (articleTime P y) \<le> the (articleTime P x)) (sortArticles P xs)"
proof -
  obtain w n where c: "countAndMakeRun P xs = (w, n)"
    by (cases "countAndMakeRun P xs") auto
  have "set w = set xs"
    using mset_countAndMakeRun [OF c] by (metis set_mset_mset)
  then have v: "\<forall>x \<in> set (take n w) \<union> set (drop n w). articleTime P x \<noteq> None"
    using assms by (metis Un_iff in_set_dropD in_set_takeD)
  have "sorted_wrt (\<lambda>x y. the (articleTime P y) \<le> the (articleTime P x))
          (foldl (binaryInsert P) (take n w) (drop n w))"
    using countAndMakeRun_sorted [OF assms c] v by (rule foldl_binaryInsert_sorted)
  then show ?thesis by (simp add: sortArticles_def c)
qed

lemma set_map_filter: "set (List.map_filter f xs) = {y. \<exists>x \<in> set xs. f x = Some y}"
  by (induction xs) (auto split: option.splits)

lemma getImages_results:
  assumes "getImages eH eD req arts = Resolved rs"
  shows "\<forall>r \<in> set rs. \<exists>a \<in> set arts. getImageForArticle eH eD req a = Resolved (Some r)"
proof
  fix r assume "r \<in> set rs"
  then obtain a where a: "a \<in> set arts"
    and "(case getImageForArticle eH eD req a of
              Resolved (Some tempRes) \<Rightarrow> if res_url tempRes \<noteq> [] then Some tempRes else None
            | Resolved None \<Rightarrow> None
            | Rejected e \<Rightarrow> None) = Some r"
    using assms unfolding getImages_def by (auto simp: set_map_filter)
  then have "getImageForArticle eH eD req a = Resolved (Some r)"
    by (auto split: promise.splits option.splits if_splits)
  with a show "\<exists>a \<in> set arts. getImageForArticle eH eD req a = Resolved (Some r)" by blast
qed

lemma insertNewArticles_history:
  "\<exists>imgResults.
     getImages (extractHTTPURL E) (extractDomain E) (request E) newArts = Resolved imgResults \<and>
     (\<forall>r \<in> set imgResults. \<exists>a \<in> set newArts.
        getImageForArticle (extractHTTPURL E) (extractDomain E) (request E) a = Resolved (Some r)) \<and>
     insertNewArticles E s newArts store =
       (s\<lparr>history := take (MAX_ARTICLES_PER_COMPANY E)
             (sortArticles (Date_parse E) (history s @ attachImages imgResults newArts))\<rparr>,
        store @ [s\<lparr>history := take (MAX_ARTICLES_PER_COMPANY E)
             (sortArticles (Date_parse E) (history s @ attachImages imgResults newArts))\<rparr>])"
proof -
  obtain imgResults where g: "getImages (extractHTTPURL E) (extractDomain E) (request E) newArts = Resolved imgResults"
    by (simp add: getImages_def)
  have "\<forall>r \<in> set imgResults. \<exists>a \<in> set newArts.
        getImageForArticle (extractHTTPURL E) (extractDomain E) (request E) a = Resolved (Some r)"
    using g by (rule getImages_results)
  moreover have "insertNewArticles E s newArts store =
       (s\<lparr>history := take (MAX_ARTICLES_PER_COMPANY E)
             (sortArticles (Date_parse E) (history s @ attachImages imgResults newArts))\<rparr>,
        store @ [s\<lparr>history := take (MAX_ARTICLES_PER_COMPANY E)
             (sortArticles (Date_parse E) (history s @ attachImages imgResults newArts))\<rparr>])"
    by (simp add: insertNewArticles_def g Let_def)
  ultimately show ?thesis using g by blast
qed

text \<open>
  Claim C10. The image results are those of new articles whose own lookup resolved with
  an image. Attaching them keeps the number and order of the new articles, and each new
  article is either unchanged or differs only in its \<^verbatim>\<open>imageURL\<close>, which then comes
  from a result with exactly the article's URL. The existing history is no argument of
  the attachment: the list that is sorted and cut holds the existing articles as they
  were, followed by the new ones.
\<close>

theorem attachment_frame:
  "\<exists>imgResults.
     getImages (extractHTTPURL E) (extractDomain E) (request E) newArts = Resolved imgResults \<and>
     (\<forall>r \<in> set imgResults. \<exists>a \<in> set newArts.
        getImageForArticle (extractHTTPURL E) (extractDomain E) (request E) a = Resolved (Some r)) \<and>
     length (attachImages imgResults newArts) = length newArts \<and>
     (\<forall>i < length newArts.
        attachImages imgResults newArts ! i = newArts ! i \<or>
        (\<exists>r \<in> set imgResults. res_url r = url (newArts ! i) \<and>
           attachImages imgResults newArts ! i = (newArts ! i)\<lparr>imageURL := Some (res_imageURL r)\<rparr>)) \<and>
     mset (sortArticles (Date_parse E) (history s @ attachImages imgResults newArts))
       = mset (history s) + mset (attachImages imgResults newArts) \<and>
     history (fst (insertNewArticles E s newArts store))
       = take (MAX_ARTICLES_PER_COMPANY E)
           (sortArticles (Date_parse E) (history s @ attachImages imgResults newArts))"
proof -
  from insertNewArticles_history [of E newArts s store] obtain imgResults where
    g: "getImages (extractHTTPURL E) (extractDomain E) (request E) newArts = Resolved imgResults"
    and r: "\<forall>r \<in> set imgResults. \<exists>a \<in> set newArts.
        getImageForArticle (extractHTTPURL E) (extractDomain E) (request E) a = Resolved (Some r)"
    and i: "insertNewArticles E s newArts store =
       (s\<lparr>history := take (MAX_ARTICLES_PER_COMPANY E)
             (sortArticles (Date_parse E) (history s @ attachImages imgResults newArts))\<rparr>,
        store @ [s\<lparr>history := take (MAX_ARTICLES_PER_COMPANY E)
             (sortArticles (Date_parse E) (history s @ attachImages imgResults newArts))\<rparr>])"
    by blast
  have f: "\<forall>i < length newArts.
        attachImages imgResults newArts ! i = newArts ! i \<or>
        (\<exists>r \<in> set imgResults. res_url r = url (newArts ! i) \<and>
           attachImages imgResults newArts ! i = (newArts ! i)\<lparr>imageURL := Some (res_imageURL r)\<rparr>)"
    using attachImages_frame [of imgResults newArts] by (simp add: list_all2_conv_all_nth)
  have h: "history (fst (insertNewArticles E s newArts store))
       = take (MAX_ARTICLES_PER_COMPANY E)
           (sortArticles (Date_parse E) (history s @ attachImages imgResults newArts))"
    by (simp add: i)
  have m: "mset (sortArticles (Date_parse E) (history s @ attachImages imgResults newArts))
       = mset (history s) + mset (attachImages imgResults newArts)"
    by (simp add: mset_sortArticles)
  from g r f h m attachImages_length [of imgResults newArts] show ?thesis by blast
qed

section \<open>Properties of the merge\<close>

lemma sorted_wrt_take_drop:
  assumes "sorted_wrt R xs" and "k \<in> set (take n xs)" and "e \<in> set (drop n xs)"
  shows "R k e"
proof -
  have "sorted_wrt R (take n xs @ drop n xs)" using assms(1) by simp
  then show ?thesis using assms(2,3) unfolding sorted_wrt_append by blast
qed

text \<open>
  What holds of the cap for every input, and what holds when the dates are valid. After
  \<^verbatim>\<open>insertNewArticles\<close> the history is at most as long as the configured maximum. When
  the existing and the new articles together are more than that, the history has exactly
  the maximum length; and when every article has a valid date, the history and the
  evicted articles together are the merged list, and no evicted article is more recent
  than an article that is kept.
\<close>

theorem history_capped:
  "length (history (fst (insertNewArticles E s newArts store))) \<le> MAX_ARTICLES_PER_COMPANY E \<and>
   (MAX_ARTICLES_PER_COMPANY E < length (history s @ newArts) \<longrightarrow>
      length (history (fst (insertNewArticles E s newArts store))) = MAX_ARTICLES_PER_COMPANY E \<and>
      ((\<forall>a \<in> set (history s @ newArts). articleTime (Date_parse E) a \<noteq> None) \<longrightarrow>
         (\<exists>imgResults evicted.
            getImages (extractHTTPURL E) (extractDomain E) (request E) newArts = Resolved imgResults \<and>
            mset (history (fst (insertNewArticles E s newArts store))) + mset evicted
              = mset (history s @ attachImages imgResults newArts) \<and>
            (\<forall>k \<in> set (history (fst (insertNewArticles E s newArts store))). \<forall>e \<in> set evicted.
               \<exists>tk te. articleTime (Date_parse E) k = Some tk \<and>
                       articleTime (Date_parse E) e = Some te \<and> te \<le> tk))))"
proof -
  let ?P = "Date_parse E" and ?M = "MAX_ARTICLES_PER_COMPANY E"
  from insertNewArticles_history [of E newArts s store] obtain imgResults where
    g: "getImages (extractHTTPURL E) (extractDomain E) (request E) newArts = Resolved imgResults"
    and i: "insertNewArticles E s newArts store =
       (s\<lparr>history := take ?M (sortArticles ?P (history s @ attachImages imgResults newArts))\<rparr>,
        store @ [s\<lparr>history := take ?M (sortArticles ?P (history s @ attachImages imgResults newArts))\<rparr>])"
    by blast
  let ?merged = "history s @ attachImages imgResults newArts"
  let ?sorted = "sortArticles ?P ?merged"
  have h: "history (fst (insertNewArticles E s newArts store)) = take ?M ?sorted"
    by (simp add: i)
  have len: "length ?sorted = length (history s @ newArts)"
    by (simp add: length_sortArticles attachImages_length)
  have c1: "length (history (fst (insertNewArticles E s newArts store))) \<le> ?M"
    by (simp add: h)
  have c2: "length (history (fst (insertNewArticles E s newArts store))) = ?M"
    if "?M < length (history s @ newArts)"
    using that len by (simp add: h)
  have c3: "\<exists>imgResults evicted.
            getImages (extractHTTPURL E) (extractDomain E) (request E) newArts = Resolved imgResults \<and>
            mset (history (fst (insertNewArticles E s newArts store))) + mset evicted
              = mset (history s @ attachImages imgResults newArts) \<and>
            (\<forall>k \<in> set (history (fst (insertNewArticles E s newArts store))). \<forall>e \<in> set evicted.
               \<exists>tk te. articleTime ?P k = Some tk \<and> articleTime ?P e = Some te \<and> te \<le> tk)"
    if valid: "\<forall>a \<in> set (history s @ newArts). articleTime ?P a \<noteq> None"
  proof -
    have "set (map (articleTime ?P) (attachImages imgResults newArts)) = set (map (articleTime ?P) newArts)"
      by (simp only: attachImages_time)
    then have im: "articleTime ?P ` set (attachImages imgResults newArts) = articleTime ?P ` set newArts"
      by simp
    have vm: "\<forall>a \<in> set ?merged. articleTime ?P a \<noteq> None"
    proof
      fix a assume "a \<in> set ?merged"
      then consider "a \<in> set (history s)" | "a \<in> set (attachImages imgResults newArts)" by auto
      then show "articleTime ?P a \<noteq> None"
      proof cases
        case 1
        then show ?thesis using valid by simp
      next
        case 2
        then have "articleTime ?P a \<in> articleTime ?P ` set newArts" using im by blast
        then obtain b where "b \<in> set newArts" and "articleTime ?P a = articleTime ?P b" by blast
        then show ?thesis using valid by simp
      qed
    qed
    from vm have vs: "\<forall>a \<in> set ?sorted. articleTime ?P a \<noteq> None"
      by (simp only: set_sortArticles)
    have srt: "sorted_wrt (\<lambda>x y. the (articleTime ?P y) \<le> the (articleTime ?P x)) ?sorted"
      using vm by (rule sorted_sortArticles)
    have ms: "mset (take ?M ?sorted) + mset (drop ?M ?sorted) = mset ?merged"
      by (metis append_take_drop_id mset_append mset_sortArticles)
    have ord: "\<exists>tk te. articleTime ?P k = Some tk \<and> articleTime ?P e = Some te \<and> te \<le> tk"
      if k: "k \<in> set (take ?M ?sorted)" and e: "e \<in> set (drop ?M ?sorted)" for k e
    proof -
      have "the (articleTime ?P e) \<le> the (articleTime ?P k)"
        using sorted_wrt_take_drop [OF srt k e] .
      moreover have "articleTime ?P k \<noteq> None" using vs k by (meson in_set_takeD)
      moreover have "articleTime ?P e \<noteq> None" using vs e by (meson in_set_dropD)
      ultimately show ?thesis by auto
    qed
    show ?thesis
      using g ms ord unfolding h by blast
  qed
  from c1 c2 c3 show ?thesis by blast
qed

lemma in_newArticles:
  "a \<in> set (newArticles existing incoming) \<longleftrightarrow>
     a \<in> set incoming \<and> url a \<notin> url ` set existing"
  by (simp add: newArticles_def articleContains_iff)

text \<open>
  Claim C5, amended. After a first merge of an incoming batch, the articles of the same
  batch that are new again for a second merge all have the URL of an article that the
  first merge evicted: an article of the sorted merged list beyond the configured
  maximum. So when the first merge does not exceed the maximum, the second merge finds no
  new article at all.
\<close>

theorem second_merge_new_was_evicted:
  "\<exists>imgResults.
     getImages (extractHTTPURL E) (extractDomain E) (request E) (newArticles (history s) incoming)
       = Resolved imgResults \<and>
     (\<forall>a \<in> set (newArticles
                    (history (fst (insertNewArticles E s (newArticles (history s) incoming) store)))
                    incoming).
        url a \<in> url ` set (drop (MAX_ARTICLES_PER_COMPANY E)
                  (sortArticles (Date_parse E)
                     (history s @ attachImages imgResults (newArticles (history s) incoming))))) \<and>
     (length (history s @ newArticles (history s) incoming) \<le> MAX_ARTICLES_PER_COMPANY E \<longrightarrow>
        newArticles (history (fst (insertNewArticles E s (newArticles (history s) incoming) store)))
          incoming = [])"
proof -
  let ?new = "newArticles (history s) incoming"
  let ?M = "MAX_ARTICLES_PER_COMPANY E"
  from insertNewArticles_history [of E ?new s store] obtain imgResults where
    g: "getImages (extractHTTPURL E) (extractDomain E) (request E) ?new = Resolved imgResults"
    and i: "insertNewArticles E s ?new store =
       (s\<lparr>history := take ?M (sortArticles (Date_parse E) (history s @ attachImages imgResults ?new))\<rparr>,
        store @ [s\<lparr>history := take ?M
             (sortArticles (Date_parse E) (history s @ attachImages imgResults ?new))\<rparr>])"
    by blast
  let ?sorted = "sortArticles (Date_parse E) (history s @ attachImages imgResults ?new)"
  let ?h = "history (fst (insertNewArticles E s ?new store))"
  have h: "?h = take ?M ?sorted" by (simp add: i)
  have au: "url ` set (attachImages imgResults ?new) = url ` set ?new"
    using attachImages_url [of imgResults ?new] by (metis set_map)
  have su: "url ` set ?sorted = url ` set (history s) \<union> url ` set ?new"
    by (simp add: set_sortArticles image_Un au)
  have split: "set ?sorted = set (take ?M ?sorted) \<union> set (drop ?M ?sorted)"
    by (metis append_take_drop_id set_append)
  have inc: "url a \<in> url ` set ?sorted" if "a \<in> set incoming" for a
  proof (cases "url a \<in> url ` set (history s)")
    case True
    then show ?thesis unfolding su by simp
  next
    case False
    with that have "a \<in> set ?new" by (simp add: in_newArticles)
    then show ?thesis unfolding su by blast
  qed
  have ev: "\<forall>a \<in> set (newArticles ?h incoming). url a \<in> url ` set (drop ?M ?sorted)"
  proof
    fix a assume a: "a \<in> set (newArticles ?h incoming)"
    then have "a \<in> set incoming \<and> url a \<notin> url ` set ?h"
      using in_newArticles [of a ?h incoming] by blast
    then have "a \<in> set incoming" and "url a \<notin> url ` set (take ?M ?sorted)"
      using h by simp_all
    with inc [of a] split show "url a \<in> url ` set (drop ?M ?sorted)"
      by (metis UnE image_Un)
  qed
  have none: "newArticles ?h incoming = []"
    if "length (history s @ ?new) \<le> ?M"
  proof -
    have "length ?sorted \<le> ?M"
      using that by (simp add: length_sortArticles attachImages_length)
    then have "drop ?M ?sorted = []" by simp
    with ev have "\<forall>a \<in> set (newArticles ?h incoming). False" by simp
    then show ?thesis by (cases "newArticles ?h incoming") auto
  qed
  from g ev none show ?thesis by blast
qed

section \<open>The merge on example data\<close>

lemma example_times:
  "articleTime avDateStringToDate_spec (exampleArticle u (Some ''2018-01-10'')) = Some 750737"
  "articleTime avDateStringToDate_spec (exampleArticle u (Some ''2018-01-20'')) = Some 750747"
  "articleTime avDateStringToDate_spec (exampleArticle u (Some ''2018-01-25'')) = Some 750752"
  "articleTime avDateStringToDate_spec (exampleArticle u (Some ''2018-01-30'')) = Some 750757"
  "articleTime avDateStringToDate_spec (exampleArticle u None) = None"
  by (simp_all add: articleTime_def exampleArticle_def avDateStringToDate_spec_def digitVal_def)

lemma example_getImages_fail:
  "getImages (extractHTTPURL exampleEnv) (extractDomain exampleEnv) (request exampleEnv) arts = Resolved []"
  by (induction arts) (simp_all add: getImages_def getImageForArticle_def exampleEnv_def)

text \<open>The sort on lists of two and three articles.\<close>

lemma sort_two_in_order:
  assumes "articleTime P a = Some ta" and "articleTime P b = Some tb" and "tb \<le> ta"
  shows "sortArticles P [a, b] = [a, b]"
  using assms
  by (simp add: sortArticles_def countAndMakeRun_def callCompare_def comparefn_def Let_def)

lemma sort_three_last_first:
  assumes "articleTime P a = Some ta" and "articleTime P b = Some tb" and "articleTime P c = Some tc"
    and "tb \<le> ta" and "ta < tc"
  shows "sortArticles P [a, b, c] = [c, a, b]"
proof -
  have run: "countAndMakeRun P [a, b, c] = ([a, b, c], 2)"
    using assms by (simp add: countAndMakeRun_def callCompare_def comparefn_def Let_def)
  have "binarySearch P c [a, b] 0 (length [a, b]) = binarySearch P c [a, b] 0 1"
    using assms by (subst binarySearch.simps) (simp add: callCompare_def comparefn_def Let_def)
  also have "\<dots> = binarySearch P c [a, b] 0 0"
    using assms by (subst binarySearch.simps) (simp add: callCompare_def comparefn_def Let_def)
  also have "\<dots> = 0"
    by (subst binarySearch.simps) simp
  finally have "binaryInsert P [a, b] c = [c, a, b]"
    unfolding binaryInsert_def Let_def by simp
  then show ?thesis by (simp add: sortArticles_def run)
qed

lemma sort_three_undated_middle:
  assumes "articleTime P x = None"
  shows "sortArticles P [a, x, c] = [a, x, c]"
  using assms
  by (simp add: sortArticles_def countAndMakeRun_def callCompare_def comparefn_def Let_def
        split: option.splits)

lemma example_insert:
  "history (fst (insertNewArticles exampleEnv exampleStock [exampleArticle ''new'' (Some ''2018-01-25'')] []))
     = [exampleArticle ''new'' (Some ''2018-01-25''), exampleArticle ''old1'' (Some ''2018-01-20'')]"
proof -
  have P: "Date_parse exampleEnv = avDateStringToDate_spec" and M: "MAX_ARTICLES_PER_COMPANY exampleEnv = 2"
    by (simp_all add: exampleEnv_def)
  have "sortArticles avDateStringToDate_spec
          [exampleArticle ''old1'' (Some ''2018-01-20''), exampleArticle ''old2'' (Some ''2018-01-10''),
           exampleArticle ''new'' (Some ''2018-01-25'')]
        = [exampleArticle ''new'' (Some ''2018-01-25''), exampleArticle ''old1'' (Some ''2018-01-20''),
           exampleArticle ''old2'' (Some ''2018-01-10'')]"
    by (rule sort_three_last_first [OF example_times(2) example_times(1) example_times(3)]) simp_all
  then show ?thesis
    by (simp add: insertNewArticles_def example_getImages_fail P M attachImages_def exampleStock_def
          Let_def)
qed

text \<open>
  The document with two articles and a maximum of two: a third, more recent article
  evicts the oldest one.
\<close>

theorem history_capped_witness:
  "MAX_ARTICLES_PER_COMPANY exampleEnv
     < length (history exampleStock @ [exampleArticle ''new'' (Some ''2018-01-25'')]) \<and>
   list_all (\<lambda>a. articleTime (Date_parse exampleEnv) a \<noteq> None)
     (history exampleStock @ [exampleArticle ''new'' (Some ''2018-01-25'')]) \<and>
   length (history (fst (insertNewArticles exampleEnv exampleStock
                           [exampleArticle ''new'' (Some ''2018-01-25'')] []))) = 2 \<and>
   history (fst (insertNewArticles exampleEnv exampleStock [exampleArticle ''new'' (Some ''2018-01-25'')] []))
     = [exampleArticle ''new'' (Some ''2018-01-25''), exampleArticle ''old1'' (Some ''2018-01-20'')]"
proof -
  have P: "Date_parse exampleEnv = avDateStringToDate_spec" and M: "MAX_ARTICLES_PER_COMPANY exampleEnv = 2"
    by (simp_all add: exampleEnv_def)
  have h1: "MAX_ARTICLES_PER_COMPANY exampleEnv
     < length (history exampleStock @ [exampleArticle ''new'' (Some ''2018-01-25'')])"
    by (simp add: M exampleStock_def)
  have h2: "\<forall>a \<in> set (history exampleStock @ [exampleArticle ''new'' (Some ''2018-01-25'')]).
      articleTime (Date_parse exampleEnv) a \<noteq> None"
    by (simp add: P exampleStock_def example_times)
  have "length (history (fst (insertNewArticles exampleEnv exampleStock
                           [exampleArticle ''new'' (Some ''2018-01-25'')] []))) = MAX_ARTICLES_PER_COMPANY exampleEnv"
    using history_capped [of exampleEnv exampleStock "[exampleArticle ''new'' (Some ''2018-01-25'')]" "[]"] h1
    by blast
  then have "length (history (fst (insertNewArticles exampleEnv exampleStock
                           [exampleArticle ''new'' (Some ''2018-01-25'')] []))) = 2"
    by (simp only: M)
  moreover have "list_all (\<lambda>a. articleTime (Date_parse exampleEnv) a \<noteq> None)
     (history exampleStock @ [exampleArticle ''new'' (Some ''2018-01-25'')])"
    using h2 by (simp only: list_all_iff)
  ultimately show ?thesis using h1 example_insert by blast
qed

text \<open>
  Claim C6 fails on the code. The stored document has one article of 2018-01-10 and the
  maximum is two. Of the two new articles one has no date and the other is of 2018-01-30.
  The comparison of the article without a date is NaN, so the sort leaves the three
  articles in the order of the merged list, and the cap keeps the old article and the one
  without a date: the most recent article is evicted, and an older one is kept.
\<close>

theorem history_cap_evicts_most_recent:
  "MAX_ARTICLES_PER_COMPANY exampleEnv
     < length (history oldStock @ [exampleArticle ''x'' None, exampleArticle ''new'' (Some ''2018-01-30'')]) \<and>
   history (fst (insertNewArticles exampleEnv oldStock
      [exampleArticle ''x'' None, exampleArticle ''new'' (Some ''2018-01-30'')] []))
     = [exampleArticle ''old'' (Some ''2018-01-10''), exampleArticle ''x'' None] \<and>
   exampleArticle ''new'' (Some ''2018-01-30'')
     \<notin> set (history (fst (insertNewArticles exampleEnv oldStock
        [exampleArticle ''x'' None, exampleArticle ''new'' (Some ''2018-01-30'')] []))) \<and>
   articleTime (Date_parse exampleEnv) (exampleArticle ''old'' (Some ''2018-01-10'')) = Some 750737 \<and>
   articleTime (Date_parse exampleEnv) (exampleArticle ''new'' (Some ''2018-01-30'')) = Some 750757"
proof -
  have P: "Date_parse exampleEnv = avDateStringToDate_spec" and M: "MAX_ARTICLES_PER_COMPANY exampleEnv = 2"
    by (simp_all add: exampleEnv_def)
  have "sortArticles avDateStringToDate_spec
          [exampleArticle ''old'' (Some ''2018-01-10''), exampleArticle ''x'' None,
           exampleArticle ''new'' (Some ''2018-01-30'')]
        = [exampleArticle ''old'' (Some ''2018-01-10''), exampleArticle ''x'' None,
           exampleArticle ''new'' (Some ''2018-01-30'')]"
    by (rule sort_three_undated_middle [OF example_times(5)])
  then have h: "history (fst (insertNewArticles exampleEnv oldStock
      [exampleArticle ''x'' None, exampleArticle ''new'' (Some ''2018-01-30'')] []))
     = [exampleArticle ''old'' (Some ''2018-01-10''), exampleArticle ''x'' None]"
    by (simp add: insertNewArticles_def example_getImages_fail P M attachImages_def oldStock_def
          Let_def)
  have n: "exampleArticle ''new'' (Some ''2018-01-30'')
             \<notin> set [exampleArticle ''old'' (Some ''2018-01-10''), exampleArticle ''x'' None]"
    by (simp add: exampleArticle_def)
  show ?thesis
    unfolding h using n by (simp add: P M example_times oldStock_def)
qed

text \<open>
  Claim C5 fails as stated: with a maximum of one article and an incoming batch of two,
  the older one is evicted by the first merge and is a new article again for the second.
\<close>

theorem second_merge_counterexample:
  "newArticles
     (history (fst (insertNewArticles (exampleEnv\<lparr>MAX_ARTICLES_PER_COMPANY := 1\<rparr>) emptyStock
        (newArticles (history emptyStock)
           [exampleArticle ''a'' (Some ''2018-01-25''), exampleArticle ''b'' (Some ''2018-01-20'')]) [])))
     [exampleArticle ''a'' (Some ''2018-01-25''), exampleArticle ''b'' (Some ''2018-01-20'')]
   = [exampleArticle ''b'' (Some ''2018-01-20'')]"
proof -
  let ?E = "exampleEnv\<lparr>MAX_ARTICLES_PER_COMPANY := 1\<rparr>"
  have P: "Date_parse exampleEnv = avDateStringToDate_spec" and M: "MAX_ARTICLES_PER_COMPANY ?E = 1"
    by (simp_all add: exampleEnv_def)
  have n: "newArticles (history emptyStock)
           [exampleArticle ''a'' (Some ''2018-01-25''), exampleArticle ''b'' (Some ''2018-01-20'')]
         = [exampleArticle ''a'' (Some ''2018-01-25''), exampleArticle ''b'' (Some ''2018-01-20'')]"
    by (simp add: newArticles_def emptyStock_def)
  have "sortArticles avDateStringToDate_spec
          [exampleArticle ''a'' (Some ''2018-01-25''), exampleArticle ''b'' (Some ''2018-01-20'')]
        = [exampleArticle ''a'' (Some ''2018-01-25''), exampleArticle ''b'' (Some ''2018-01-20'')]"
    by (rule sort_two_in_order [OF example_times(3) example_times(2)]) simp
  then have h: "history (fst (insertNewArticles ?E emptyStock
             [exampleArticle ''a'' (Some ''2018-01-25''), exampleArticle ''b'' (Some ''2018-01-20'')] []))
           = [exampleArticle ''a'' (Some ''2018-01-25'')]"
    by (simp add: insertNewArticles_def example_getImages_fail P M attachImages_def emptyStock_def
          Let_def)
  show ?thesis
    unfolding n h by (simp add: newArticles_def exampleArticle_def)
qed

text \<open>
  The document with two articles and a maximum of two: the first merge of a more recent
  article evicts the oldest stored article, and the second merge finds nothing new.
\<close>

theorem second_merge_new_was_evicted_witness:
  "newArticles
     (history (fst (insertNewArticles exampleEnv exampleStock
        (newArticles (history exampleStock) [exampleArticle ''new'' (Some ''2018-01-25'')]) [])))
     [exampleArticle ''new'' (Some ''2018-01-25'')] = [] \<and>
   \<not> length (history exampleStock @
        newArticles (history exampleStock) [exampleArticle ''new'' (Some ''2018-01-25'')])
      \<le> MAX_ARTICLES_PER_COMPANY exampleEnv"
proof -
  let ?n = "exampleArticle ''new'' (Some ''2018-01-25'')"
  let ?o1 = "exampleArticle ''old1'' (Some ''2018-01-20'')"
  let ?o2 = "exampleArticle ''old2'' (Some ''2018-01-10'')"
  have P: "Date_parse exampleEnv = avDateStringToDate_spec" and M: "MAX_ARTICLES_PER_COMPANY exampleEnv = 2"
    by (simp_all add: exampleEnv_def)
  have n: "newArticles (history exampleStock) [?n] = [?n]"
    by (simp add: newArticles_def exampleStock_def exampleArticle_def)
  have srt: "sortArticles avDateStringToDate_spec [?o1, ?o2, ?n] = [?n, ?o1, ?o2]"
    by (rule sort_three_last_first [OF example_times(2) example_times(1) example_times(3)]) simp_all
  from second_merge_new_was_evicted [of exampleEnv exampleStock "[?n]" "[]"] obtain imgResults where
    g: "getImages (extractHTTPURL exampleEnv) (extractDomain exampleEnv) (request exampleEnv)
          (newArticles (history exampleStock) [?n]) = Resolved imgResults"
    and ev: "\<forall>a \<in> set (newArticles
                    (history (fst (insertNewArticles exampleEnv exampleStock
                       (newArticles (history exampleStock) [?n]) [])))
                    [?n]).
        url a \<in> url ` set (drop (MAX_ARTICLES_PER_COMPANY exampleEnv)
                  (sortArticles (Date_parse exampleEnv)
                     (history exampleStock @ attachImages imgResults (newArticles (history exampleStock) [?n]))))"
    by blast
  from g have r: "imgResults = []" by (simp add: example_getImages_fail)
  have d: "drop (MAX_ARTICLES_PER_COMPANY exampleEnv)
             (sortArticles (Date_parse exampleEnv)
                (history exampleStock @ attachImages imgResults (newArticles (history exampleStock) [?n])))
           = [?o2]"
    unfolding r n P M by (simp add: attachImages_def exampleStock_def srt)
  let ?again = "newArticles
                    (history (fst (insertNewArticles exampleEnv exampleStock
                       (newArticles (history exampleStock) [?n]) [])))
                    [?n]"
  have "a \<notin> set ?again" for a
  proof
    assume a: "a \<in> set ?again"
    then have "a = ?n" using in_newArticles [of a _ "[?n]"] by simp
    moreover from a ev have "url a \<in> url ` set [?o2]" unfolding d by blast
    ultimately show False by (simp add: exampleArticle_def)
  qed
  then have "?again = []" by (cases ?again) auto
  moreover have "\<not> length (history exampleStock @ newArticles (history exampleStock) [?n])
      \<le> MAX_ARTICLES_PER_COMPANY exampleEnv"
    unfolding n by (simp add: M exampleStock_def)
  ultimately show ?thesis by blast
qed

lemma image_getImages:
  "getImages (extractHTTPURL imageEnv) (extractDomain imageEnv) (request imageEnv)
     [exampleArticle ''http://example.com/news/1'' (Some ''2018-01-25'')]
   = Resolved [\<lparr>res_url = ''http://example.com/news/1'', res_imageURL = ''http://example.com/img/a.png''\<rparr>]"
  by (simp add: getImages_def getImageForArticle_def imageEnv_def exampleEnv_def truthy_def
        extractHTTPURL_spec_def stripSlash_def exampleArticle_def)

text \<open>
  A new article whose page has an image gets the image URL; the existing articles are
  as they were.
\<close>

theorem attachment_frame_witness:
  "attachImages [\<lparr>res_url = ''http://example.com/news/1'', res_imageURL = ''http://example.com/img/a.png''\<rparr>]
     [exampleArticle ''http://example.com/news/1'' (Some ''2018-01-25'')]
     = [(exampleArticle ''http://example.com/news/1'' (Some ''2018-01-25''))
          \<lparr>imageURL := Some ''http://example.com/img/a.png''\<rparr>] \<and>
   history (fst (insertNewArticles imageEnv exampleStock
       [exampleArticle ''http://example.com/news/1'' (Some ''2018-01-25'')] []))
     = [(exampleArticle ''http://example.com/news/1'' (Some ''2018-01-25''))
          \<lparr>imageURL := Some ''http://example.com/img/a.png''\<rparr>,
        exampleArticle ''old1'' (Some ''2018-01-20'')]"
proof -
  let ?n = "exampleArticle ''http://example.com/news/1'' (Some ''2018-01-25'')"
  let ?r = "\<lparr>res_url = ''http://example.com/news/1'', res_imageURL = ''http://example.com/img/a.png''\<rparr>"
  have P: "Date_parse imageEnv = avDateStringToDate_spec" and M: "MAX_ARTICLES_PER_COMPANY imageEnv = 2"
    by (simp_all add: imageEnv_def exampleEnv_def)
  from attachment_frame [of imageEnv "[?n]" exampleStock "[]"] obtain imgResults where
    g: "getImages (extractHTTPURL imageEnv) (extractDomain imageEnv) (request imageEnv) [?n] = Resolved imgResults"
    and h: "history (fst (insertNewArticles imageEnv exampleStock [?n] []))
       = take (MAX_ARTICLES_PER_COMPANY imageEnv)
           (sortArticles (Date_parse imageEnv) (history exampleStock @ attachImages imgResults [?n]))"
    by blast
  from g have r: "imgResults = [?r]" by (simp add: image_getImages)
  have a: "attachImages [?r] [?n] = [?n\<lparr>imageURL := Some ''http://example.com/img/a.png''\<rparr>]"
    by (simp add: attachImages_def exampleArticle_def)
  have t: "articleTime avDateStringToDate_spec (?n\<lparr>imageURL := Some ''http://example.com/img/a.png''\<rparr>)
             = Some 750752"
    using example_times(3) [of "''http://example.com/news/1''"] by (simp add: articleTime_def)
  have srt: "sortArticles avDateStringToDate_spec
               [exampleArticle ''old1'' (Some ''2018-01-20''), exampleArticle ''old2'' (Some ''2018-01-10''),
                ?n\<lparr>imageURL := Some ''http://example.com/img/a.png''\<rparr>]
             = [?n\<lparr>imageURL := Some ''http://example.com/img/a.png''\<rparr>,
                exampleArticle ''old1'' (Some ''2018-01-20''), exampleArticle ''old2'' (Some ''2018-01-10'')]"
    by (rule sort_three_last_first [OF example_times(2) example_times(1) t]) simp_all
  have "history (fst (insertNewArticles imageEnv exampleStock [?n] []))
          = [?n\<lparr>imageURL := Some ''http://example.com/img/a.png''\<rparr>,
             exampleArticle ''old1'' (Some ''2018-01-20'')]"
    unfolding h r a P M
    by (simp add: exampleStock_def srt)
  with a show ?thesis by simp
qed

section \<open>Fetching articles and updating documents: auxiliary facts\<close>

lemma truthyReason_string: "truthyReason r \<Longrightarrow> reasonString r \<noteq> []"
  by (cases r) auto

lemma join_nonempty: "x \<in> set xs \<Longrightarrow> x \<noteq> [] \<Longrightarrow> join xs \<noteq> []"
  by (induction xs rule: join.induct) auto

lemma onError_truthy: "truthyReason r \<Longrightarrow> errors (onError r st) = errors st @ [r]"
  by (simp add: onError_def)

lemma articleData_onError: "articleData (onError r st) = articleData st"
  by (simp add: onError_def)

lemma articleData_onSettled:
  "articleData (onSettled c outcome st) =
     articleData st @ (case settledDatum c outcome of Some datum \<Rightarrow> [datum] | None \<Rightarrow> [])"
  by (simp add: onSettled_def settledDatum_def articleData_onError split: promise.splits sum.splits)

lemma settleQueries_first_rejection:
  assumes "\<forall>ev \<in> set pre. \<exists>res. snd ev = Resolved res" and "length pre < n"
    and "truthyReason r"
  shows "\<exists>ad str. settleQueries n (pre @ (c, Rejected r) # post) st = Some (ad, Some str) \<and> str \<noteq> []"
  using assms
proof (induction pre arbitrary: n st)
  case Nil
  then obtain m where n: "n = Suc m" by (cases n) auto
  have "reasonString r \<in> set (map reasonString (errors st @ [r]))" by simp
  then have "join (map reasonString (errors st @ [r])) \<noteq> []"
    using truthyReason_string [OF Nil.prems(3)] by (rule join_nonempty)
  then show ?case
    using Nil.prems(3) by (simp add: n onSettled_def onError_truthy)
next
  case (Cons ev pre)
  then obtain m where n: "n = Suc m" by (cases n) auto
  obtain c' res where ev: "ev = (c', Resolved res)"
    using Cons.prems(1) by (cases ev) auto
  have "\<exists>ad str. settleQueries m (pre @ (c, Rejected r) # post) (onSettled c' (Resolved res) st)
          = Some (ad, Some str) \<and> str \<noteq> []"
    using Cons.prems n by (intro Cons.IH) simp_all
  then show ?case by (simp add: n ev)
qed

lemma settleQueries_all_resolved:
  assumes "\<forall>ev \<in> set evs. \<exists>res. snd ev = Resolved res" and "length evs = n"
  shows "settleQueries n evs st
           = Some (articleData st @ List.map_filter (\<lambda>(c, outcome). settledDatum c outcome) evs, None)"
  using assms
proof (induction evs arbitrary: n st)
  case Nil
  then show ?case by simp
next
  case (Cons ev evs)
  then obtain m where n: "n = Suc m" and m: "length evs = m" by (cases n) auto
  obtain c' res where ev: "ev = (c', Resolved res)"
    using Cons.prems(1) by (cases ev) auto
  have "settleQueries m evs (onSettled c' (Resolved res) st)
          = Some (articleData (onSettled c' (Resolved res) st) @
                    List.map_filter (\<lambda>(c, outcome). settledDatum c outcome) evs, None)"
    using Cons.prems(1) m by (intro Cons.IH) simp_all
  then show ?case
    by (simp add: n ev articleData_onSettled split: option.splits)
qed

lemma findStockDatum_Some:
  "findStockDatum xs name = Some i \<Longrightarrow> i < length xs \<and> company (xs ! i) = name"
  by (induction xs arbitrary: i) (auto split: if_splits)

lemma findStockDatum_None: "findStockDatum xs name = None \<Longrightarrow> name \<notin> company ` set xs"
  by (induction xs) (auto split: if_splits)

lemma findStockDatum_snoc:
  assumes "company s \<noteq> name"
  shows "findStockDatum (xs @ [s]) name = findStockDatum xs name"
  using assms by (induction xs) auto

lemma company_newStockDatum: "company (newStockDatum E name) = name"
  by (simp add: newStockDatum_def)

lemma company_stockDatumFor: "company (stockDatumFor E xs name) = name"
  by (auto simp: stockDatumFor_def company_newStockDatum dest: findStockDatum_Some
        split: option.splits)

lemma stockDatumFor_snoc:
  assumes "company s \<noteq> name"
  shows "stockDatumFor E (xs @ [s]) name = stockDatumFor E xs name"
proof (cases "findStockDatum xs name")
  case None
  then show ?thesis by (simp add: stockDatumFor_def findStockDatum_snoc [OF assms])
next
  case (Some i)
  then have "i < length xs" using findStockDatum_Some by blast
  then show ?thesis
    by (simp add: stockDatumFor_def findStockDatum_snoc [OF assms] Some nth_append)
qed

text \<open>
  \<^verbatim>\<open>prepare\<close> only appends to \<^verbatim>\<open>results\<close>, and for companies that are all different
  each task points at the document of its company as it was found or created.
\<close>

lemma prepare_Cons:
  "prepare E (ad # rest) results =
     (let results' = (case findStockDatum results (datum_company ad) of
                        Some i \<Rightarrow> results
                      | None \<Rightarrow> results @ [newStockDatum E (datum_company ad)]);
          i = (case findStockDatum results (datum_company ad) of
                 Some i \<Rightarrow> i | None \<Rightarrow> length results)
      in (\<lparr>task_index = i, task_existing = history (results' ! i),
            task_new = newArticles (history (results' ! i)) (datum_articles ad)\<rparr>
             # fst (prepare E rest results'),
          snd (prepare E rest results')))"
  by (simp add: Let_def split: option.splits prod.splits)

lemma prepare_prefix:
  "\<exists>extra. snd (prepare E ads results) = results @ extra"
proof (induction ads arbitrary: results)
  case Nil
  then show ?case by simp
next
  case (Cons ad rest)
  show ?case
  proof (cases "findStockDatum results (datum_company ad)")
    case None
    from Cons.IH [of "results @ [newStockDatum E (datum_company ad)]"] show ?thesis
      by (auto simp: prepare_Cons None Let_def simp del: prepare.simps)
  next
    case (Some i)
    from Cons.IH [of results] show ?thesis
      by (auto simp: prepare_Cons Some Let_def simp del: prepare.simps)
  qed
qed

lemma prepare_companies:
  "company ` set results \<union> datum_company ` set ads
     \<subseteq> company ` set (snd (prepare E ads results))"
proof (induction ads arbitrary: results)
  case Nil
  then show ?case by simp
next
  case (Cons ad rest)
  show ?case
  proof (cases "findStockDatum results (datum_company ad)")
    case None
    from Cons.IH [of "results @ [newStockDatum E (datum_company ad)]"] show ?thesis
      by (auto simp: prepare_Cons None Let_def company_newStockDatum simp del: prepare.simps)
  next
    case (Some i)
    from findStockDatum_Some [OF Some] have "datum_company ad \<in> company ` set results"
      by (metis image_eqI nth_mem)
    with Cons.IH [of results] show ?thesis
      by (auto simp: prepare_Cons Some Let_def simp del: prepare.simps)
  qed
qed

lemma prepare_indices:
  "\<forall>t \<in> set (fst (prepare E ads results)). task_index t < length (snd (prepare E ads results))"
proof (induction ads arbitrary: results)
  case Nil
  then show ?case by simp
next
  case (Cons ad rest)
  let ?c = "datum_company ad"
  let ?results' = "(case findStockDatum results ?c of
                      Some i \<Rightarrow> results | None \<Rightarrow> results @ [newStockDatum E ?c])"
  let ?i = "(case findStockDatum results ?c of Some i \<Rightarrow> i | None \<Rightarrow> length results)"
  obtain extra where ex: "snd (prepare E rest ?results') = ?results' @ extra"
    using prepare_prefix [of E rest ?results'] by blast
  have "?i < length ?results'"
    by (auto dest: findStockDatum_Some split: option.splits)
  then have "?i < length (snd (prepare E rest ?results'))"
    by (simp add: ex)
  with Cons.IH [of ?results'] show ?case
    by (simp add: prepare_Cons Let_def del: prepare.simps)
qed

lemma prepare_tasks:
  assumes "distinct (map datum_company ads)"
  shows "list_all2
           (\<lambda>ad t. task_index t < length (snd (prepare E ads results)) \<and>
                    snd (prepare E ads results) ! task_index t
                      = stockDatumFor E results (datum_company ad) \<and>
                    task_existing t = history (stockDatumFor E results (datum_company ad)) \<and>
                    task_new t = newArticles (history (stockDatumFor E results (datum_company ad)))
                                   (datum_articles ad))
           ads (fst (prepare E ads results))"
  using assms
proof (induction ads arbitrary: results)
  case Nil
  then show ?case by simp
next
  case (Cons ad rest)
  let ?c = "datum_company ad"
  let ?results' = "(case findStockDatum results ?c of
                      Some i \<Rightarrow> results | None \<Rightarrow> results @ [newStockDatum E ?c])"
  let ?i = "(case findStockDatum results ?c of Some i \<Rightarrow> i | None \<Rightarrow> length results)"
  let ?final = "snd (prepare E rest ?results')"
  have fin: "snd (prepare E (ad # rest) results) = ?final"
    and tsk: "fst (prepare E (ad # rest) results) =
                \<lparr>task_index = ?i, task_existing = history (?results' ! ?i),
                 task_new = newArticles (history (?results' ! ?i)) (datum_articles ad)\<rparr>
                  # fst (prepare E rest ?results')"
    by (simp_all add: prepare_Cons Let_def del: prepare.simps)
  obtain extra where ex: "?final = ?results' @ extra"
    using prepare_prefix [of E rest ?results'] by blast
  have i: "?i < length ?results'" and at: "?results' ! ?i = stockDatumFor E results ?c"
    by (auto simp: stockDatumFor_def dest: findStockDatum_Some split: option.splits)
  have head: "?i < length ?final \<and> ?final ! ?i = stockDatumFor E results ?c"
    using i at by (simp add: ex nth_append)
  have dist: "distinct (map datum_company rest)" and notin: "?c \<notin> datum_company ` set rest"
    using Cons.prems by simp_all
  have other: "\<forall>ad' \<in> set rest. datum_company ad' \<noteq> ?c"
  proof
    fix ad' assume "ad' \<in> set rest"
    then have "datum_company ad' \<in> datum_company ` set rest" by (rule imageI)
    with notin show "datum_company ad' \<noteq> ?c" by metis
  qed
  have same: "stockDatumFor E ?results' (datum_company ad') = stockDatumFor E results (datum_company ad')"
    if "ad' \<in> set rest" for ad'
  proof (cases "findStockDatum results ?c")
    case None
    have "company (newStockDatum E ?c) \<noteq> datum_company ad'"
      using other that by (metis company_newStockDatum)
    then show ?thesis by (simp add: None stockDatumFor_snoc)
  next
    case (Some j)
    then show ?thesis by simp
  qed
  have tail: "list_all2
           (\<lambda>ad' t. task_index t < length ?final \<and>
                    ?final ! task_index t = stockDatumFor E results (datum_company ad') \<and>
                    task_existing t = history (stockDatumFor E results (datum_company ad')) \<and>
                    task_new t = newArticles (history (stockDatumFor E results (datum_company ad')))
                                   (datum_articles ad'))
           rest (fst (prepare E rest ?results'))"
    by (rule list.rel_mono_strong [OF Cons.IH [OF dist, of ?results']]) (simp add: same)
  show ?case
    unfolding fin tsk using head tail at by simp
qed

lemma map_company_update:
  assumes "company s' = company (results ! i)"
  shows "map company (results[i := s']) = map company results"
proof (cases "i < length results")
  case True
  then show ?thesis using assms by (simp add: map_update list_update_same_conv)
next
  case False
  then have "results[i := s'] = results" by (simp add: list_update_beyond not_less)
  then show ?thesis by simp
qed

lemma insertNewArticles_company:
  "company (fst (insertNewArticles E s newArts store)) = company s"
  using insertNewArticles_history [of E newArts s store] by auto

text \<open>
  A task changes the document at its position only, and only adds to the documents handed
  to the store.
\<close>

lemma settleTask_shape:
  "\<exists>s' ext. settleTask E (results, store) t = (results[task_index t := s'], store @ ext) \<and>
            company s' = company (results ! task_index t)"
proof (cases "task_new t = []")
  case True
  have "results[task_index t := results ! task_index t] = results"
    by (cases "task_index t < length results") (simp_all add: list_update_beyond not_less)
  then have "settleTask E (results, store) t
               = (results[task_index t := results ! task_index t], store @ [])"
    using True by (simp add: settleTask_def Let_def)
  then show ?thesis by blast
next
  case False
  let ?s = "results ! task_index t"
  show ?thesis
  proof (cases "getLatestStockPrices (getPriceHistoryForTicker E) ?s")
    case (Resolved u)
    let ?u = "u\<lparr>price_history :=
               filteredPriceHistory E (task_existing t @ task_new t) (price_history u)\<rparr>"
    from insertNewArticles_history [of E "task_new t" ?u store] obtain s' where
      i: "insertNewArticles E ?u (task_new t) store = (s', store @ [s'])" and c: "company s' = company ?u"
      by auto
    have "company u = company ?s"
      using Resolved by (auto simp: getLatestStockPrices_def split: if_splits promise.splits)
    moreover have "settleTask E (results, store) t = (results[task_index t := s'], store @ [s'])"
      using False Resolved i by (simp add: settleTask_def Let_def)
    ultimately show ?thesis using c by auto
  next
    case (Rejected e)
    from insertNewArticles_history [of E "task_new t" ?s store] obtain s' where
      i: "insertNewArticles E ?s (task_new t) store = (s', store @ [s'])" and c: "company s' = company ?s"
      by auto
    have "settleTask E (results, store) t = (results[task_index t := s'], store @ [s'])"
      using False Rejected i by (simp add: settleTask_def Let_def)
    then show ?thesis using c by auto
  qed
qed

lemma settleTask_company: "map company (fst (settleTask E st t)) = map company (fst st)"
proof -
  obtain results store where st: "st = (results, store)" by (cases st)
  from settleTask_shape [of E results store t] show ?thesis
    unfolding st by (auto simp: map_company_update)
qed

lemma foldl_settleTask_company:
  "map company (fst (foldl (settleTask E) st tasks)) = map company (fst st)"
  by (induction tasks arbitrary: st) (simp_all add: settleTask_company)

lemma foldl_settleTask_other:
  assumes "j \<notin> task_index ` set tasks"
  shows "fst (foldl (settleTask E) (results, store) tasks) ! j = results ! j \<and>
         length (fst (foldl (settleTask E) (results, store) tasks)) = length results \<and>
         (\<exists>ext. snd (foldl (settleTask E) (results, store) tasks) = store @ ext)"
  using assms
proof (induction tasks arbitrary: results store)
  case Nil
  then show ?case by simp
next
  case (Cons t tasks)
  from settleTask_shape [of E results store t] obtain s' ext where
    s: "settleTask E (results, store) t = (results[task_index t := s'], store @ ext)"
    by blast
  have j: "j \<noteq> task_index t" and rest: "j \<notin> task_index ` set tasks"
    using Cons.prems by auto
  from Cons.IH [OF rest, of "results[task_index t := s']" "store @ ext"] j
  show ?case by (auto simp: s)
qed

lemma updateStocksData_companies:
  "\<exists>results store'. updateStocksData E ads docs store = (Resolved results, store') \<and>
     company ` set docs \<union> datum_company ` set ads \<subseteq> company ` set results"
proof -
  obtain tasks results where p: "prepare E ads docs = (tasks, results)"
    by (cases "prepare E ads docs") auto
  obtain results' store' where f: "foldl (settleTask E) (results, store) tasks = (results', store')"
    by (cases "foldl (settleTask E) (results, store) tasks") auto
  have "map company results' = map company results"
    using foldl_settleTask_company [of E "(results, store)" tasks] f by simp
  then have "company ` set results' = company ` set results"
    by (metis set_map)
  with prepare_companies [of docs ads E] p
  have "company ` set docs \<union> datum_company ` set ads \<subseteq> company ` set results'" by simp
  moreover have "updateStocksData E ads docs store = (Resolved results', store')"
    by (simp add: updateStocksData_def p f)
  ultimately show ?thesis by blast
qed

text \<open>The rest of a company's promise body when the price fetch fails.\<close>

lemma getLatestStockPrices_fails:
  assumes "getPriceHistoryForTicker E (ticker s) = Rejected err"
  shows "\<exists>e. getLatestStockPrices (getPriceHistoryForTicker E) s = Rejected e"
  using assms by (simp add: getLatestStockPrices_def)

lemma settleTask_price_failure:
  assumes "task_new t \<noteq> []"
    and "getPriceHistoryForTicker E (ticker (results ! task_index t)) = Rejected err"
  shows "\<exists>imgResults.
           getImages (extractHTTPURL E) (extractDomain E) (request E) (task_new t) = Resolved imgResults \<and>
           settleTask E (results, store) t =
             (results[task_index t := (results ! task_index t)
                \<lparr>history := take (MAX_ARTICLES_PER_COMPANY E)
                   (sortArticles (Date_parse E)
                      (history (results ! task_index t) @ attachImages imgResults (task_new t)))\<rparr>],
              store @ [(results ! task_index t)
                \<lparr>history := take (MAX_ARTICLES_PER_COMPANY E)
                   (sortArticles (Date_parse E)
                      (history (results ! task_index t) @ attachImages imgResults (task_new t)))\<rparr>])"
proof -
  let ?s = "results ! task_index t"
  from getLatestStockPrices_fails [OF assms(2)] obtain e where
    f: "getLatestStockPrices (getPriceHistoryForTicker E) ?s = Rejected e" by blast
  from insertNewArticles_history [of E "task_new t" ?s store] obtain imgResults where
    g: "getImages (extractHTTPURL E) (extractDomain E) (request E) (task_new t) = Resolved imgResults"
    and i: "insertNewArticles E ?s (task_new t) store =
       (?s\<lparr>history := take (MAX_ARTICLES_PER_COMPANY E)
             (sortArticles (Date_parse E) (history ?s @ attachImages imgResults (task_new t)))\<rparr>,
        store @ [?s\<lparr>history := take (MAX_ARTICLES_PER_COMPANY E)
             (sortArticles (Date_parse E) (history ?s @ attachImages imgResults (task_new t)))\<rparr>])"
    by blast
  have "settleTask E (results, store) t =
          (results[task_index t := ?s\<lparr>history := take (MAX_ARTICLES_PER_COMPANY E)
             (sortArticles (Date_parse E) (history ?s @ attachImages imgResults (task_new t)))\<rparr>],
           store @ [?s\<lparr>history := take (MAX_ARTICLES_PER_COMPANY E)
             (sortArticles (Date_parse E) (history ?s @ attachImages imgResults (task_new t)))\<rparr>])"
    using assms(1) by (simp add: settleTask_def f i Let_def)
  with g show ?thesis by blast
qed

text \<open>
  The batch: the companies of the article data are all different, and for one of them
  there are new articles and the price fetch fails. Then the result of
  \<^verbatim>\<open>updateStocksData\<close> holds the company's document with the merged history and its
  former prices, and this document has been handed to the store.
\<close>

lemma updateStocksData_price_failure:
  assumes "distinct (map datum_company ads)" and "ad \<in> set ads"
    and "newArticles (history (stockDatumFor E docs (datum_company ad))) (datum_articles ad) \<noteq> []"
    and "getPriceHistoryForTicker E (ticker (stockDatumFor E docs (datum_company ad))) = Rejected err"
  shows "\<exists>results store' imgResults.
           updateStocksData E ads docs store = (Resolved results, store') \<and>
           getImages (extractHTTPURL E) (extractDomain E) (request E)
             (newArticles (history (stockDatumFor E docs (datum_company ad))) (datum_articles ad))
             = Resolved imgResults \<and>
           (stockDatumFor E docs (datum_company ad))
             \<lparr>history := take (MAX_ARTICLES_PER_COMPANY E)
                (sortArticles (Date_parse E)
                   (history (stockDatumFor E docs (datum_company ad)) @
                    attachImages imgResults
                      (newArticles (history (stockDatumFor E docs (datum_company ad)))
                         (datum_articles ad))))\<rparr>
             \<in> set results \<inter> set store' \<and>
           datum_company ` set ads \<subseteq> company ` set results"
proof -
  let ?s0 = "stockDatumFor E docs (datum_company ad)"
  let ?new = "newArticles (history ?s0) (datum_articles ad)"
  let ?tasks = "fst (prepare E ads docs)" and ?r0 = "snd (prepare E ads docs)"
  let ?Q = "\<lambda>ad t. task_index t < length ?r0 \<and>
                    ?r0 ! task_index t = stockDatumFor E docs (datum_company ad) \<and>
                    task_existing t = history (stockDatumFor E docs (datum_company ad)) \<and>
                    task_new t = newArticles (history (stockDatumFor E docs (datum_company ad)))
                                   (datum_articles ad)"
  have la: "list_all2 ?Q ads ?tasks"
    using assms(1) by (rule prepare_tasks)
  then have len: "length ?tasks = length ads" by (simp add: list_all2_lengthD)
  from assms(2) obtain k where k: "k < length ads" and adk: "ads ! k = ad"
    by (auto simp: in_set_conv_nth)
  let ?t = "?tasks ! k"
  let ?i = "task_index ?t"
  have Qk: "?Q ad ?t"
    using list_all2_nthD [OF la k] adk by simp
  have other: "task_index (?tasks ! m) \<noteq> ?i" if m: "m < length ads" "m \<noteq> k" for m
  proof
    assume eq: "task_index (?tasks ! m) = ?i"
    have "?Q (ads ! m) (?tasks ! m)" using list_all2_nthD [OF la m(1)] .
    then have "?r0 ! ?i = stockDatumFor E docs (datum_company (ads ! m))" using eq by simp
    then have "stockDatumFor E docs (datum_company (ads ! m)) = ?s0" using Qk by simp
    then have "datum_company (ads ! m) = datum_company (ads ! k)"
      using company_stockDatumFor [of E docs] adk by metis
    then have "map datum_company ads ! m = map datum_company ads ! k"
      using m(1) k by simp
    moreover have "m < length (map datum_company ads)" "k < length (map datum_company ads)"
      using m(1) k by simp_all
    ultimately have "m = k"
      using assms(1) nth_eq_iff_index_eq by blast
    then show False using m(2) by simp
  qed
  let ?pre = "take k ?tasks" and ?post = "drop (Suc k) ?tasks"
  have split: "?tasks = ?pre @ ?t # ?post"
    using k len by (simp add: id_take_nth_drop)
  have npre: "?i \<notin> task_index ` set ?pre"
  proof
    assume "?i \<in> task_index ` set ?pre"
    then obtain m where "m < k" "task_index (?tasks ! m) = ?i"
      using k len by (auto simp: in_set_conv_nth)
    then show False using other [of m] k by simp
  qed
  have npost: "?i \<notin> task_index ` set ?post"
  proof
    assume "?i \<in> task_index ` set ?post"
    then obtain m where "m < length ?tasks - Suc k" "task_index (?tasks ! (Suc k + m)) = ?i"
      using k len by (auto simp: in_set_conv_nth)
    moreover have "Suc k + m < length ads" using \<open>m < length ?tasks - Suc k\<close> len by simp
    ultimately show False using other [of "Suc k + m"] by simp
  qed
  obtain r1 st1 where f1: "foldl (settleTask E) (?r0, store) ?pre = (r1, st1)"
    by (cases "foldl (settleTask E) (?r0, store) ?pre") auto
  from foldl_settleTask_other [OF npre, of E ?r0 store] f1 obtain ext1 where
    r1: "r1 ! ?i = ?r0 ! ?i" and l1: "length r1 = length ?r0" and s1: "st1 = store @ ext1"
    by auto
  have r1s: "r1 ! ?i = ?s0" using r1 Qk by simp
  have tn: "task_new ?t = ?new" using Qk by simp
  have h1: "task_new ?t \<noteq> []" using assms(3) tn by simp
  have h2: "getPriceHistoryForTicker E (ticker (r1 ! ?i)) = Rejected err"
    using assms(4) r1s by simp
  from settleTask_price_failure [OF h1 h2, of st1] obtain imgResults where
    g: "getImages (extractHTTPURL E) (extractDomain E) (request E) ?new = Resolved imgResults"
    and st: "settleTask E (r1, st1) ?t =
             (r1[?i := ?s0\<lparr>history := take (MAX_ARTICLES_PER_COMPANY E)
                   (sortArticles (Date_parse E) (history ?s0 @ attachImages imgResults ?new))\<rparr>],
              st1 @ [?s0\<lparr>history := take (MAX_ARTICLES_PER_COMPANY E)
                   (sortArticles (Date_parse E) (history ?s0 @ attachImages imgResults ?new))\<rparr>])"
    unfolding tn r1s by blast
  let ?s' = "?s0\<lparr>history := take (MAX_ARTICLES_PER_COMPANY E)
                   (sortArticles (Date_parse E) (history ?s0 @ attachImages imgResults ?new))\<rparr>"
  obtain r2 st2 where f2: "foldl (settleTask E) (r1[?i := ?s'], st1 @ [?s']) ?post = (r2, st2)"
    by (cases "foldl (settleTask E) (r1[?i := ?s'], st1 @ [?s']) ?post") auto
  from foldl_settleTask_other [OF npost, of E "r1[?i := ?s']" "st1 @ [?s']"] f2 obtain ext2 where
    r2: "r2 ! ?i = (r1[?i := ?s']) ! ?i" and l2: "length r2 = length (r1[?i := ?s'])"
    and s2: "st2 = (st1 @ [?s']) @ ext2"
    by auto
  have i: "?i < length ?r0" using Qk by simp
  have "r2 ! ?i = ?s'" using r2 i l1 by simp
  then have in_r: "?s' \<in> set r2"
    using i l1 l2 by (metis length_list_update nth_mem)
  have in_s: "?s' \<in> set st2" using s2 by simp
  have "foldl (settleTask E) (?r0, store) ?tasks = (r2, st2)"
    by (subst split) (simp add: f1 st f2)
  moreover have "prepare E ads docs = (?tasks, ?r0)" by simp
  ultimately have u: "updateStocksData E ads docs store = (Resolved r2, st2)"
    unfolding updateStocksData_def by (metis (no_types, lifting) case_prod_conv)
  from updateStocksData_companies [of E ads docs store] u
  have "datum_company ` set ads \<subseteq> company ` set r2" by auto
  with u g in_r in_s show ?thesis by blast
qed

section \<open>The run when every discovery query is fulfilled\<close>

lemma order_events:
  assumes "set order = {..<length names}"
  shows "filter (\<lambda>i. i < length names) order = order"
  using assms by (auto simp: filter_id_conv)

lemma getArticleData_all_fulfilled:
  assumes "distinct order" and "set order = {..<length names}"
    and "\<forall>j < length names. \<exists>res. query E (names ! j) = Resolved res"
  shows "getArticleDataForCompanies E names order
           = Some (List.map_filter (\<lambda>(c, outcome). settledDatum c outcome)
                     (map (\<lambda>i. (names ! i, query E (names ! i))) order), None)"
proof -
  let ?f = "\<lambda>i. (names ! i, query E (names ! i))"
  have len: "length order = length names"
    using assms(1,2) by (metis card_lessThan distinct_card)
  have all: "\<forall>ev \<in> set (map ?f order). \<exists>res. snd ev = Resolved res"
    using assms(2,3) by auto
  from settleQueries_all_resolved [OF all, of "length names" "\<lparr>articleData = [], errors = []\<rparr>"] len
  show ?thesis
    by (simp add: getArticleDataForCompanies_def order_events [OF assms(2)])
qed

lemma run_all_fulfilled:
  assumes "configured E" and "names \<noteq> []" and "distinct order" and "set order = {..<length names}"
    and "\<forall>j < length names. \<exists>res. query E (names ! j) = Resolved res"
    and "updateStocksData E
           (List.map_filter (\<lambda>(c, outcome). settledDatum c outcome)
              (map (\<lambda>i. (names ! i, query E (names ! i))) order)) docs store = (settled, store')"
  shows "run E (Resolved docs) (Some names) order store = (Some settled, store')"
  using assms(1,2,6)
  by (simp add: run_def getArticleData_all_fulfilled [OF assms(3,4,5)] truthy_def)

lemma fulfilled_datum_member:
  assumes "set order = {..<length names}" and "k < length names"
    and "query E (names ! k) = Resolved res" and "companyArticles res = Inr arts"
  shows "\<lparr>datum_company = names ! k, datum_articles = arts\<rparr>
           \<in> set (List.map_filter (\<lambda>(c, outcome). settledDatum c outcome)
                    (map (\<lambda>i. (names ! i, query E (names ! i))) order))"
proof -
  have "k \<in> set order" using assms(1,2) by simp
  moreover have "settledDatum (names ! k) (query E (names ! k))
                   = Some \<lparr>datum_company = names ! k, datum_articles = arts\<rparr>"
    using assms(3,4) by (simp add: settledDatum_def)
  ultimately show ?thesis
    by (force simp: set_map_filter)
qed

lemma company_settledDatum: "settledDatum c outcome = Some datum \<Longrightarrow> datum_company datum = c"
  by (auto simp: settledDatum_def split: promise.splits sum.splits)

lemma fulfilled_data_distinct:
  assumes "distinct names" and "distinct order" and "set order = {..<length names}"
  shows "distinct (map datum_company
           (List.map_filter (\<lambda>(c, outcome). settledDatum c outcome)
              (map (\<lambda>i. (names ! i, query E (names ! i))) order)))"
proof -
  have sub: "set order \<subseteq> {..<length names}" using assms(3) by simp
  have "distinct (map datum_company
           (List.map_filter (\<lambda>(c, outcome). settledDatum c outcome)
              (map (\<lambda>i. (names ! i, query E (names ! i))) os)))"
    if "distinct os" "set os \<subseteq> {..<length names}" for os
    using that
  proof (induction os)
    case Nil
    then show ?case by simp
  next
    case (Cons i os)
    have ih: "distinct (map datum_company
           (List.map_filter (\<lambda>(c, outcome). settledDatum c outcome)
              (map (\<lambda>i. (names ! i, query E (names ! i))) os)))"
      using Cons by simp
    show ?case
    proof (cases "settledDatum (names ! i) (query E (names ! i))")
      case None
      then show ?thesis using ih by simp
    next
      case (Some datum)
      have c: "datum_company datum = names ! i" using Some by (rule company_settledDatum)
      have "names ! i \<notin> datum_company ` set (List.map_filter (\<lambda>(c, outcome). settledDatum c outcome)
              (map (\<lambda>i. (names ! i, query E (names ! i))) os))"
      proof
        assume "names ! i \<in> datum_company ` set (List.map_filter (\<lambda>(c, outcome). settledDatum c outcome)
              (map (\<lambda>i. (names ! i, query E (names ! i))) os))"
        then obtain j datum' where j: "j \<in> set os"
          and "settledDatum (names ! j) (query E (names ! j)) = Some datum'"
          and "datum_company datum' = names ! i"
          by (auto simp: set_map_filter)
        then have "names ! j = names ! i" using company_settledDatum by metis
        moreover have "j < length names" "i < length names" using j Cons.prems(2) by auto
        ultimately have "j = i" using assms(1) nth_eq_iff_index_eq by blast
        then show False using j Cons.prems(1) by simp
      qed
      then show ?thesis using ih Some c by simp
    qed
  qed
  from this [OF assms(2) sub] show ?thesis .
qed

section \<open>A failed price fetch\<close>

text \<open>
  Claim C8. The companies of a batch are all different. For a company with new articles
  whose price fetch fails, \<^verbatim>\<open>updateStocksData\<close> resolves with a result that holds the
  company's document with the new articles merged into its history and with the price
  history it had before, this document has been handed to the store, and the result holds
  a document for every company of the batch. The same holds of \<^verbatim>\<open>run\<close> itself when the
  queries of all companies are fulfilled: the promise of \<^verbatim>\<open>run\<close> resolves with such a
  result. The document before the update is the stored one, or the new one of a company
  that has none.
\<close>

theorem price_failure_keeps_prices:
  "(distinct (map datum_company ads) \<longrightarrow> ad \<in> set ads \<longrightarrow>
      newArticles (history (stockDatumFor E docs (datum_company ad))) (datum_articles ad) \<noteq> [] \<longrightarrow>
      getPriceHistoryForTicker E (ticker (stockDatumFor E docs (datum_company ad))) = Rejected err \<longrightarrow>
      (\<exists>results store' imgResults s'.
         updateStocksData E ads docs store = (Resolved results, store') \<and>
         getImages (extractHTTPURL E) (extractDomain E) (request E)
           (newArticles (history (stockDatumFor E docs (datum_company ad))) (datum_articles ad))
           = Resolved imgResults \<and>
         s' \<in> set results \<and> s' \<in> set store' \<and>
         company s' = datum_company ad \<and>
         price_history s' = price_history (stockDatumFor E docs (datum_company ad)) \<and>
         history s' = take (MAX_ARTICLES_PER_COMPANY E)
           (sortArticles (Date_parse E)
              (history (stockDatumFor E docs (datum_company ad)) @
               attachImages imgResults
                 (newArticles (history (stockDatumFor E docs (datum_company ad))) (datum_articles ad)))) \<and>
         datum_company ` set ads \<subseteq> company ` set results)) \<and>
   (configured E \<longrightarrow> distinct names \<longrightarrow> distinct order \<longrightarrow> set order = {..<length names} \<longrightarrow>
      (\<forall>j < length names. \<exists>res'. query E (names ! j) = Resolved res') \<longrightarrow>
      k < length names \<longrightarrow> query E (names ! k) = Resolved res \<longrightarrow> companyArticles res = Inr arts \<longrightarrow>
      newArticles (history (stockDatumFor E docs (names ! k))) arts \<noteq> [] \<longrightarrow>
      getPriceHistoryForTicker E (ticker (stockDatumFor E docs (names ! k))) = Rejected err \<longrightarrow>
      (\<exists>results store' imgResults s'.
         run E (Resolved docs) (Some names) order store = (Some (Resolved results), store') \<and>
         getImages (extractHTTPURL E) (extractDomain E) (request E)
           (newArticles (history (stockDatumFor E docs (names ! k))) arts) = Resolved imgResults \<and>
         s' \<in> set results \<and> s' \<in> set store' \<and>
         company s' = names ! k \<and>
         price_history s' = price_history (stockDatumFor E docs (names ! k)) \<and>
         history s' = take (MAX_ARTICLES_PER_COMPANY E)
           (sortArticles (Date_parse E)
              (history (stockDatumFor E docs (names ! k)) @
               attachImages imgResults
                 (newArticles (history (stockDatumFor E docs (names ! k))) arts)))))"
proof (intro conjI impI)
  assume d: "distinct (map datum_company ads)" and m: "ad \<in> set ads"
    and n: "newArticles (history (stockDatumFor E docs (datum_company ad))) (datum_articles ad) \<noteq> []"
    and f: "getPriceHistoryForTicker E (ticker (stockDatumFor E docs (datum_company ad))) = Rejected err"
  let ?s0 = "stockDatumFor E docs (datum_company ad)"
  let ?new = "newArticles (history ?s0) (datum_articles ad)"
  from updateStocksData_price_failure [OF d m n f, of store] obtain results store' imgResults where
    u: "updateStocksData E ads docs store = (Resolved results, store')"
    and g: "getImages (extractHTTPURL E) (extractDomain E) (request E) ?new = Resolved imgResults"
    and s: "?s0\<lparr>history := take (MAX_ARTICLES_PER_COMPANY E)
                (sortArticles (Date_parse E) (history ?s0 @ attachImages imgResults ?new))\<rparr>
             \<in> set results \<inter> set store'"
    and c: "datum_company ` set ads \<subseteq> company ` set results"
    by blast
  let ?s' = "?s0\<lparr>history := take (MAX_ARTICLES_PER_COMPANY E)
                (sortArticles (Date_parse E) (history ?s0 @ attachImages imgResults ?new))\<rparr>"
  have "company ?s' = datum_company ad" by (simp add: company_stockDatumFor)
  moreover have "price_history ?s' = price_history ?s0" by simp
  moreover have "history ?s' = take (MAX_ARTICLES_PER_COMPANY E)
                (sortArticles (Date_parse E) (history ?s0 @ attachImages imgResults ?new))" by simp
  moreover have "?s' \<in> set results" "?s' \<in> set store'" using s by simp_all
  ultimately show "\<exists>results store' imgResults s'.
         updateStocksData E ads docs store = (Resolved results, store') \<and>
         getImages (extractHTTPURL E) (extractDomain E) (request E) ?new = Resolved imgResults \<and>
         s' \<in> set results \<and> s' \<in> set store' \<and>
         company s' = datum_company ad \<and>
         price_history s' = price_history ?s0 \<and>
         history s' = take (MAX_ARTICLES_PER_COMPANY E)
           (sortArticles (Date_parse E) (history ?s0 @ attachImages imgResults ?new)) \<and>
         datum_company ` set ads \<subseteq> company ` set results"
    using u g c by blast
next
  assume cf: "configured E" and dn: "distinct names" and dord: "distinct order"
    and so: "set order = {..<length names}"
    and all: "\<forall>j < length names. \<exists>res'. query E (names ! j) = Resolved res'"
    and k: "k < length names" and q: "query E (names ! k) = Resolved res"
    and ca: "companyArticles res = Inr arts"
    and n: "newArticles (history (stockDatumFor E docs (names ! k))) arts \<noteq> []"
    and f: "getPriceHistoryForTicker E (ticker (stockDatumFor E docs (names ! k))) = Rejected err"
  let ?ads = "List.map_filter (\<lambda>(c, outcome). settledDatum c outcome)
                (map (\<lambda>i. (names ! i, query E (names ! i))) order)"
  let ?ad = "\<lparr>datum_company = names ! k, datum_articles = arts\<rparr>"
  let ?s0 = "stockDatumFor E docs (names ! k)"
  let ?new = "newArticles (history ?s0) arts"
  have d: "distinct (map datum_company ?ads)"
    using dn dord so by (rule fulfilled_data_distinct)
  have m: "?ad \<in> set ?ads"
    using so k q ca by (rule fulfilled_datum_member)
  have n': "newArticles (history (stockDatumFor E docs (datum_company ?ad))) (datum_articles ?ad) \<noteq> []"
    using n by simp
  have f': "getPriceHistoryForTicker E (ticker (stockDatumFor E docs (datum_company ?ad))) = Rejected err"
    using f by simp
  from updateStocksData_price_failure [OF d m n' f', of store] obtain results store' imgResults where
    u: "updateStocksData E ?ads docs store = (Resolved results, store')"
    and g: "getImages (extractHTTPURL E) (extractDomain E) (request E) ?new = Resolved imgResults"
    and s: "?s0\<lparr>history := take (MAX_ARTICLES_PER_COMPANY E)
                (sortArticles (Date_parse E) (history ?s0 @ attachImages imgResults ?new))\<rparr>
             \<in> set results \<inter> set store'"
    by auto
  have ne: "names \<noteq> []" using k by auto
  have r: "run E (Resolved docs) (Some names) order store = (Some (Resolved results), store')"
    using cf ne dord so all u by (rule run_all_fulfilled)
  let ?s' = "?s0\<lparr>history := take (MAX_ARTICLES_PER_COMPANY E)
                (sortArticles (Date_parse E) (history ?s0 @ attachImages imgResults ?new))\<rparr>"
  have "company ?s' = names ! k" by (simp add: company_stockDatumFor)
  moreover have "price_history ?s' = price_history ?s0" by simp
  moreover have "history ?s' = take (MAX_ARTICLES_PER_COMPANY E)
                (sortArticles (Date_parse E) (history ?s0 @ attachImages imgResults ?new))" by simp
  moreover have "?s' \<in> set results" "?s' \<in> set store'" using s by simp_all
  ultimately show "\<exists>results store' imgResults s'.
         run E (Resolved docs) (Some names) order store = (Some (Resolved results), store') \<and>
         getImages (extractHTTPURL E) (extractDomain E) (request E) ?new = Resolved imgResults \<and>
         s' \<in> set results \<and> s' \<in> set store' \<and>
         company s' = names ! k \<and>
         price_history s' = price_history ?s0 \<and>
         history s' = take (MAX_ARTICLES_PER_COMPANY E)
           (sortArticles (Date_parse E) (history ?s0 @ attachImages imgResults ?new))"
    using r g by blast
qed

text \<open>
  The example environment, where every price fetch fails: the store holds the document of
  \<^verbatim>\<open>A\<close> with two articles, and the queries for \<^verbatim>\<open>A\<close> and \<^verbatim>\<open>C\<close> each return one
  article.
\<close>

lemma example_query_A:
  "query exampleEnv ''A'' = Resolved [\<lparr>result_url = ''u/A'', label = Some ''positive'',
       crawl_date = Some ''2018-01-25'', result_title = ''t'', forum_title = ''f''\<rparr>]"
  by (simp add: exampleEnv_def)

lemma example_articles_A:
  "companyArticles [\<lparr>result_url = ''u/A'', label = Some ''positive'',
       crawl_date = Some ''2018-01-25'', result_title = ''t'', forum_title = ''f''\<rparr>]
     = Inr [\<lparr>url = ''u/A'', sentiment = ''positive'', date = Some ''2018-01-25'',
             title = ''t'', source = ''f'', imageURL = None\<rparr>]"
  by (simp add: companyArticles_def parseArticle_def)

lemma example_stockDatumFor: "stockDatumFor exampleEnv [exampleStock] ''A'' = exampleStock"
  by (simp add: stockDatumFor_def exampleStock_def)

theorem price_failure_keeps_prices_witness:
  "configured exampleEnv \<and> distinct [''A'', ''C''] \<and> distinct [0::nat, 1] \<and>
   set [0::nat, 1] = {..<length [''A'', ''C'']} \<and>
   list_all (\<lambda>j. \<exists>res'. query exampleEnv ([''A'', ''C''] ! j) = Resolved res') [0, 1] \<and>
   (0::nat) < length [''A'', ''C''] \<and>
   query exampleEnv ([''A'', ''C''] ! 0) = Resolved [\<lparr>result_url = ''u/A'', label = Some ''positive'',
       crawl_date = Some ''2018-01-25'', result_title = ''t'', forum_title = ''f''\<rparr>] \<and>
   newArticles (history (stockDatumFor exampleEnv [exampleStock] ([''A'', ''C''] ! 0)))
     [\<lparr>url = ''u/A'', sentiment = ''positive'', date = Some ''2018-01-25'',
       title = ''t'', source = ''f'', imageURL = None\<rparr>] \<noteq> [] \<and>
   getPriceHistoryForTicker exampleEnv
     (ticker (stockDatumFor exampleEnv [exampleStock] ([''A'', ''C''] ! 0))) = Rejected (ErrorObj ''limit'') \<and>
   (\<exists>results store' s'.
      run exampleEnv (Resolved [exampleStock]) (Some [''A'', ''C'']) [0, 1] []
        = (Some (Resolved results), store') \<and>
      s' \<in> set results \<and> s' \<in> set store' \<and> company s' = ''A'' \<and>
      price_history s' = [(''2018-01-10'', 9)] \<and>
      history s' = [\<lparr>url = ''u/A'', sentiment = ''positive'', date = Some ''2018-01-25'',
                      title = ''t'', source = ''f'', imageURL = None\<rparr>,
                    exampleArticle ''old1'' (Some ''2018-01-20'')]) \<and>
   distinct (map datum_company
     [\<lparr>datum_company = ''A'',
       datum_articles = [\<lparr>url = ''u/A'', sentiment = ''positive'', date = Some ''2018-01-25'',
                           title = ''t'', source = ''f'', imageURL = None\<rparr>]\<rparr>]) \<and>
   (\<exists>results store' s'.
      updateStocksData exampleEnv
        [\<lparr>datum_company = ''A'',
          datum_articles = [\<lparr>url = ''u/A'', sentiment = ''positive'', date = Some ''2018-01-25'',
                              title = ''t'', source = ''f'', imageURL = None\<rparr>]\<rparr>]
        [exampleStock] [] = (Resolved results, store') \<and>
      s' \<in> set results \<and> s' \<in> set store' \<and> company s' = ''A'' \<and>
      price_history s' = [(''2018-01-10'', 9)])"
proof -
  let ?names = "[''A'', ''C'']"
  let ?r = "\<lparr>result_url = ''u/A'', label = Some ''positive'',
       crawl_date = Some ''2018-01-25'', result_title = ''t'', forum_title = ''f''\<rparr>"
  let ?art = "\<lparr>url = ''u/A'', sentiment = ''positive'', date = Some ''2018-01-25'',
       title = ''t'', source = ''f'', imageURL = None\<rparr>"
  have P: "Date_parse exampleEnv = avDateStringToDate_spec" and M: "MAX_ARTICLES_PER_COMPANY exampleEnv = 2"
    by (simp_all add: exampleEnv_def)
  have cf: "configured exampleEnv" by (simp add: exampleEnv_def)
  have dn: "distinct ?names" and dord: "distinct [0::nat, 1]" by simp_all
  have so: "set [0::nat, 1] = {..<length ?names}" by auto
  have all0: "list_all (\<lambda>j. \<exists>res'. query exampleEnv (?names ! j) = Resolved res') [0, 1]"
    by (simp add: exampleEnv_def)
  have all: "\<forall>j < length ?names. \<exists>res'. query exampleEnv (?names ! j) = Resolved res'"
    using all0 by (simp add: less_Suc_eq numeral_2_eq_2)
  have k: "(0::nat) < length ?names" by simp
  have q: "query exampleEnv (?names ! 0) = Resolved [?r]"
    using example_query_A by simp
  have s0: "stockDatumFor exampleEnv [exampleStock] (?names ! 0) = exampleStock"
    using example_stockDatumFor by simp
  have new: "newArticles (history exampleStock) [?art] = [?art]"
    by (simp add: newArticles_def exampleStock_def exampleArticle_def)
  have n: "newArticles (history (stockDatumFor exampleEnv [exampleStock] (?names ! 0))) [?art] \<noteq> []"
    unfolding s0 new by simp
  have f: "getPriceHistoryForTicker exampleEnv
     (ticker (stockDatumFor exampleEnv [exampleStock] (?names ! 0))) = Rejected (ErrorObj ''limit'')"
    by (simp add: exampleEnv_def)
  note this_company = price_failure_keeps_prices
         [where E = exampleEnv and docs = "[exampleStock]" and err = "ErrorObj ''limit''"
            and names = ?names and order = "[0, 1]" and k = 0 and res = "[?r]" and arts = "[?art]"
            and store = "[]", THEN conjunct2, rule_format,
          OF cf dn dord so all [rule_format] k q example_articles_A n f]
  then obtain results store' imgResults s' where
    r: "run exampleEnv (Resolved [exampleStock]) (Some ?names) [0, 1] [] = (Some (Resolved results), store')"
    and g: "getImages (extractHTTPURL exampleEnv) (extractDomain exampleEnv) (request exampleEnv)
              (newArticles (history (stockDatumFor exampleEnv [exampleStock] (?names ! 0))) [?art])
              = Resolved imgResults"
    and mem: "s' \<in> set results" "s' \<in> set store'" and c: "company s' = ?names ! 0"
    and ph: "price_history s' = price_history (stockDatumFor exampleEnv [exampleStock] (?names ! 0))"
    and h: "history s' = take (MAX_ARTICLES_PER_COMPANY exampleEnv)
           (sortArticles (Date_parse exampleEnv)
              (history (stockDatumFor exampleEnv [exampleStock] (?names ! 0)) @
               attachImages imgResults
                 (newArticles (history (stockDatumFor exampleEnv [exampleStock] (?names ! 0))) [?art])))"
    by blast
  from g have i: "imgResults = []" by (simp add: example_getImages_fail)
  have t: "articleTime avDateStringToDate_spec ?art = Some 750752"
    by (simp add: articleTime_def avDateStringToDate_spec_def digitVal_def)
  have srt: "sortArticles avDateStringToDate_spec
               [exampleArticle ''old1'' (Some ''2018-01-20''), exampleArticle ''old2'' (Some ''2018-01-10''),
                ?art]
             = [?art, exampleArticle ''old1'' (Some ''2018-01-20''),
                exampleArticle ''old2'' (Some ''2018-01-10'')]"
    by (rule sort_three_last_first [OF example_times(2) example_times(1) t]) simp_all
  have hs: "history s' = [?art, exampleArticle ''old1'' (Some ''2018-01-20'')]"
    unfolding h s0 new i P M by (simp add: attachImages_def exampleStock_def srt)
  have ps: "price_history s' = [(''2018-01-10'', 9)]"
    unfolding ph s0 by (simp add: exampleStock_def)
  have cs: "company s' = ''A''" using c by simp
  from r mem cs ps hs have
    "\<exists>results store' s'.
      run exampleEnv (Resolved [exampleStock]) (Some ?names) [0, 1] []
        = (Some (Resolved results), store') \<and>
      s' \<in> set results \<and> s' \<in> set store' \<and> company s' = ''A'' \<and>
      price_history s' = [(''2018-01-10'', 9)] \<and>
      history s' = [?art, exampleArticle ''old1'' (Some ''2018-01-20'')]"
    by blast
  note run_part = this
  let ?ad = "\<lparr>datum_company = ''A'', datum_articles = [?art]\<rparr>"
  have da: "distinct (map datum_company [?ad])" by simp
  have ma: "?ad \<in> set [?ad]" by simp
  have na: "newArticles (history (stockDatumFor exampleEnv [exampleStock] (datum_company ?ad)))
              (datum_articles ?ad) \<noteq> []"
    using n by simp
  have fa: "getPriceHistoryForTicker exampleEnv
              (ticker (stockDatumFor exampleEnv [exampleStock] (datum_company ?ad)))
              = Rejected (ErrorObj ''limit'')"
    using f by simp
  note price_failure_keeps_prices
         [where E = exampleEnv and docs = "[exampleStock]" and err = "ErrorObj ''limit''"
            and ads = "[?ad]" and ad = ?ad and store = "[]", THEN conjunct1, rule_format,
          OF da ma na fa]
  then obtain results2 store2 s2 where
    u: "updateStocksData exampleEnv [?ad] [exampleStock] [] = (Resolved results2, store2)"
    and mem2: "s2 \<in> set results2" "s2 \<in> set store2" and c2: "company s2 = datum_company ?ad"
    and ph2: "price_history s2 = price_history (stockDatumFor exampleEnv [exampleStock] (datum_company ?ad))"
    by blast
  have "price_history s2 = [(''2018-01-10'', 9)]"
    using ph2 s0 by (simp add: exampleStock_def)
  with u mem2 c2 have batch_part:
    "\<exists>results store' s'.
      updateStocksData exampleEnv [?ad] [exampleStock] [] = (Resolved results, store') \<and>
      s' \<in> set results \<and> s' \<in> set store' \<and> company s' = ''A'' \<and>
      price_history s' = [(''2018-01-10'', 9)]"
    by auto
  from cf dn dord so all0 k q n f run_part da batch_part show ?thesis by (intro conjI)
qed

section \<open>The orchestrator and failed discovery queries\<close>

text \<open>
  Claim C1, amended. The list of companies is given, and the queries settle in any order,
  each once. When some company's discovery query fails and every failing query is
  rejected with a truthy reason (an error object or a non-empty string), the promise of
  \<^verbatim>\<open>run\<close> is rejected, without a reason, and no document is handed to the store,
  whatever the other companies' queries returned. When the project is configured, the
  store lists its documents, the list of companies is not empty and every query is
  fulfilled, the promise of \<^verbatim>\<open>run\<close> is resolved, and the result holds a document for
  every company whose articles were parsed without an exception.
\<close>

theorem run_settles:
  assumes "distinct order" and "set order = {..<length names}"
  shows "(i < length names \<longrightarrow> query E (names ! i) = Rejected r \<longrightarrow>
            (\<forall>j < length names. \<forall>r'. query E (names ! j) = Rejected r' \<longrightarrow> truthyReason r') \<longrightarrow>
            run E search (Some names) order store = (Some (Rejected Undefined), store)) \<and>
         (configured E \<longrightarrow> search = Resolved docs \<longrightarrow> names \<noteq> [] \<longrightarrow>
            (\<forall>j < length names. \<exists>res. query E (names ! j) = Resolved res) \<longrightarrow>
            (\<exists>results store'.
               run E search (Some names) order store = (Some (Resolved results), store') \<and>
               (\<forall>j < length names. \<forall>res arts.
                  query E (names ! j) = Resolved res \<longrightarrow> companyArticles res = Inr arts \<longrightarrow>
                  names ! j \<in> company ` set results)))"
proof (intro conjI impI)
  let ?f = "\<lambda>i. (names ! i, query E (names ! i))"
  have ev: "getArticleDataForCompanies E names order
              = settleQueries (length names) (map ?f order) \<lparr>articleData = [], errors = []\<rparr>"
    by (simp add: getArticleDataForCompanies_def order_events [OF assms(2)])
  have len: "length order = length names"
    using assms by (metis card_lessThan distinct_card)
  {
    assume i: "i < length names" and q: "query E (names ! i) = Rejected r"
      and tr: "\<forall>j < length names. \<forall>r'. query E (names ! j) = Rejected r' \<longrightarrow> truthyReason r'"
    have "\<exists>k \<in> set order. \<exists>r'. query E (names ! k) = Rejected r'"
      using i q assms(2) by auto
    then obtain o1 k o2 where o: "order = o1 @ k # o2"
      and k: "\<exists>r'. query E (names ! k) = Rejected r'"
      and o1: "\<forall>y \<in> set o1. \<not> (\<exists>r'. query E (names ! y) = Rejected r')"
      using split_list_first_prop [of order "\<lambda>k. \<exists>r'. query E (names ! k) = Rejected r'"] by blast
    from k obtain r' where r': "query E (names ! k) = Rejected r'" by blast
    have "k < length names" using o assms(2) by auto
    then have t: "truthyReason r'" using tr r' by blast
    have pre: "\<forall>ev \<in> set (map ?f o1). \<exists>res. snd ev = Resolved res"
    proof
      fix ev assume "ev \<in> set (map ?f o1)"
      then obtain y where y: "y \<in> set o1" and e: "ev = ?f y" by auto
      from o1 y have "\<not> (\<exists>r'. query E (names ! y) = Rejected r')" by blast
      then show "\<exists>res. snd ev = Resolved res"
        by (cases "query E (names ! y)") (auto simp: e)
    qed
    have l: "length (map ?f o1) < length names"
      using len o by simp
    from settleQueries_first_rejection [OF pre l t, of "names ! k" "map ?f o2" "\<lparr>articleData = [], errors = []\<rparr>"]
    obtain ad str where "settleQueries (length names) (map ?f o1 @ (names ! k, Rejected r') # map ?f o2)
                       \<lparr>articleData = [], errors = []\<rparr> = Some (ad, Some str)" and str: "str \<noteq> []"
      by auto
    moreover have "map ?f order = map ?f o1 @ (names ! k, Rejected r') # map ?f o2"
      by (simp add: o r')
    ultimately have g: "getArticleDataForCompanies E names order = Some (ad, Some str)"
      by (simp only: ev)
    have "truthy (Some str)"
      using str by (simp add: truthy_def)
    then show "run E search (Some names) order store = (Some (Rejected Undefined), store)"
      by (simp add: run_def g split: promise.splits)
  }
  {
    assume c: "configured E" and s: "search = Resolved docs" and ne: "names \<noteq> []"
      and ok: "\<forall>j < length names. \<exists>res. query E (names ! j) = Resolved res"
    let ?ads = "List.map_filter (\<lambda>(c, outcome). settledDatum c outcome) (map ?f order)"
    from updateStocksData_companies [of E ?ads docs store] obtain results store' where
      u: "updateStocksData E ?ads docs store = (Resolved results, store')"
      and sub: "company ` set docs \<union> datum_company ` set ?ads \<subseteq> company ` set results"
      by blast
    have r: "run E search (Some names) order store = (Some (Resolved results), store')"
      unfolding s using c ne assms ok u by (rule run_all_fulfilled)
    have "names ! j \<in> company ` set results"
      if "j < length names" "query E (names ! j) = Resolved res" "companyArticles res = Inr arts"
      for j res arts
    proof -
      have "\<lparr>datum_company = names ! j, datum_articles = arts\<rparr> \<in> set ?ads"
        using assms(2) that by (rule fulfilled_datum_member)
      then have "names ! j \<in> datum_company ` set ?ads" by force
      then show ?thesis using sub by blast
    qed
    with r show "\<exists>results store'.
               run E search (Some names) order store = (Some (Resolved results), store') \<and>
               (\<forall>j < length names. \<forall>res arts.
                  query E (names ! j) = Resolved res \<longrightarrow> companyArticles res = Inr arts \<longrightarrow>
                  names ! j \<in> company ` set results)"
      by blast
  }
qed

text \<open>
  Claim C1 fails as stated: with two companies, the query of \<^verbatim>\<open>A\<close> succeeding and
  the query of \<^verbatim>\<open>B\<close> failing, the promise of \<^verbatim>\<open>run\<close> is rejected.
\<close>

theorem run_rejects_counterexample:
  "2 \<le> length [''A'', ''B''] \<and>
   query exampleEnv ''A'' = Resolved [\<lparr>result_url = ''u/A'', label = Some ''positive'',
       crawl_date = Some ''2018-01-25'', result_title = ''t'', forum_title = ''f''\<rparr>] \<and>
   query exampleEnv ''B'' = Rejected (ErrorObj ''timeout'') \<and>
   run exampleEnv (Resolved []) (Some [''A'', ''B'']) [0, 1] [] = (Some (Rejected Undefined), [])"
  by (simp add: run_def getArticleDataForCompanies_def exampleEnv_def onSettled_def onError_def
        companyArticles_def parseArticle_def truthy_def)

lemma example_articles_C:
  "query exampleEnv ''C'' = Resolved [\<lparr>result_url = ''u/C'', label = Some ''positive'',
       crawl_date = Some ''2018-01-25'', result_title = ''t'', forum_title = ''f''\<rparr>]"
  "companyArticles [\<lparr>result_url = ''u/C'', label = Some ''positive'',
       crawl_date = Some ''2018-01-25'', result_title = ''t'', forum_title = ''f''\<rparr>]
     = Inr [\<lparr>url = ''u/C'', sentiment = ''positive'', date = Some ''2018-01-25'',
             title = ''t'', source = ''f'', imageURL = None\<rparr>]"
  by (simp_all add: exampleEnv_def companyArticles_def parseArticle_def)

theorem run_settles_witness:
  "distinct [0::nat, 1] \<and> set [0::nat, 1] = {..<length [''A'', ''B'']} \<and>
   (1::nat) < length [''A'', ''B''] \<and>
   query exampleEnv ([''A'', ''B''] ! 1) = Rejected (ErrorObj ''timeout'') \<and>
   list_all (\<lambda>j. \<forall>r'. query exampleEnv ([''A'', ''B''] ! j) = Rejected r' \<longrightarrow> truthyReason r') [0, 1] \<and>
   run exampleEnv (Resolved []) (Some [''A'', ''B'']) [0, 1] [] = (Some (Rejected Undefined), []) \<and>
   configured exampleEnv \<and> [''A'', ''C''] \<noteq> [] \<and>
   list_all (\<lambda>j. \<exists>res. query exampleEnv ([''A'', ''C''] ! j) = Resolved res) [0, 1] \<and>
   (\<exists>results store'.
      run exampleEnv (Resolved []) (Some [''A'', ''C'']) [0, 1] [] = (Some (Resolved results), store') \<and>
      set [''A'', ''C''] \<subseteq> company ` set results)"
proof -
  have d: "distinct [0::nat, 1]" by simp
  have s1: "set [0::nat, 1] = {..<length [''A'', ''B'']}" and s2: "set [0::nat, 1] = {..<length [''A'', ''C'']}"
    by auto
  have i: "(1::nat) < length [''A'', ''B'']" by simp
  have q: "query exampleEnv ([''A'', ''B''] ! 1) = Rejected (ErrorObj ''timeout'')"
    by (simp add: exampleEnv_def)
  have t0: "list_all (\<lambda>j. \<forall>r'. query exampleEnv ([''A'', ''B''] ! j) = Rejected r' \<longrightarrow> truthyReason r') [0, 1]"
    by (auto simp: exampleEnv_def)
  have t: "\<forall>j < length [''A'', ''B'']. \<forall>r'. query exampleEnv ([''A'', ''B''] ! j) = Rejected r' \<longrightarrow> truthyReason r'"
    using t0 by (simp add: less_Suc_eq numeral_2_eq_2)
  have c: "configured exampleEnv" by (simp add: exampleEnv_def)
  have ne: "[''A'', ''C''] \<noteq> []" by simp
  have ok0: "list_all (\<lambda>j. \<exists>res. query exampleEnv ([''A'', ''C''] ! j) = Resolved res) [0, 1]"
    by (simp add: exampleEnv_def)
  have ok: "\<forall>j < length [''A'', ''C'']. \<exists>res. query exampleEnv ([''A'', ''C''] ! j) = Resolved res"
    using ok0 by (simp add: less_Suc_eq numeral_2_eq_2)
  have r1: "run exampleEnv (Resolved []) (Some [''A'', ''B'']) [0, 1] [] = (Some (Rejected Undefined), [])"
    using run_settles [OF d s1, where i = 1 and E = exampleEnv and r = "ErrorObj ''timeout''"
            and search = "Resolved []" and store = "[]", THEN conjunct1] i q t
    by blast
  from run_settles [OF d s2, where E = exampleEnv and search = "Resolved []" and docs = "[]" and store = "[]",
            THEN conjunct2, rule_format, OF c refl ne ok [rule_format]]
  obtain results store' where
    r: "run exampleEnv (Resolved []) (Some [''A'', ''C'']) [0, 1] [] = (Some (Resolved results), store')"
    and m: "\<forall>j < length [''A'', ''C'']. \<forall>res arts.
                  query exampleEnv ([''A'', ''C''] ! j) = Resolved res \<longrightarrow> companyArticles res = Inr arts \<longrightarrow>
                  [''A'', ''C''] ! j \<in> company ` set results"
    by blast
  have "''A'' \<in> company ` set results"
    using m [rule_format, of 0] example_query_A example_articles_A by simp
  moreover have "''C'' \<in> company ` set results"
    using m [rule_format, of 1] example_articles_C by simp
  ultimately have "set [''A'', ''C''] \<subseteq> company ` set results" by simp
  with r have r2: "\<exists>results store'.
      run exampleEnv (Resolved []) (Some [''A'', ''C'']) [0, 1] [] = (Some (Resolved results), store') \<and>
      set [''A'', ''C''] \<subseteq> company ` set results"
    by blast
  from d s1 i q t0 r1 c ne ok0 r2 show ?thesis by (intro conjI)
qed

end
